theory Spec2Isabelle
  imports
    Complex_Main
    "HOL-Library.Word"
    "HOL-Library.Signed_Division"
    "HOL-Library.Sublist"
    "HOL-Library.List_Lexorder"
begin

unbundle bit_operations_syntax

section \<open>Machine integers and run-time panics\<close>

text \<open>
  The driver (\<^verbatim>\<open>cmd/cli/main.go\<close>) computes with Go's \<^verbatim>\<open>int\<close>, \<^verbatim>\<open>int64\<close> and
  \<^verbatim>\<open>uint64\<close>, all 64 bits wide on the platforms the benchmark runs on. They are
  64-bit words here: \<open>+\<close> and \<open>*\<close> wrap, \<open>sint\<close> reads the signed value, \<open>unat\<close> the
  unsigned one. The conversions \<^verbatim>\<open>uint64(j)\<close>, \<^verbatim>\<open>int64(n)\<close> and \<^verbatim>\<open>int(x)\<close> keep the bits.
\<close>

type_synonym byte = "8 word"
type_synonym bytes = "byte list"
type_synonym uint64 = "64 word"
type_synonym int64 = "64 word"

datatype panic =
    DivideByZero
  | NilDereference
  | NegativeLength
  | NegativeWaitGroup
  | PSetFailed
  | OpenFailed

text \<open>Go's \<^verbatim>\<open>/\<close> and \<^verbatim>\<open>%\<close> on signed integers truncate towards zero.\<close>

definition quo64 :: "int64 \<Rightarrow> int64 \<Rightarrow> int64" where
  "quo64 a b = word_of_int (sint a sdiv sint b)"

definition rem64 :: "int64 \<Rightarrow> int64 \<Rightarrow> int64" where
  "rem64 a b = word_of_int (sint a smod sint b)"

text \<open>A division whose divisor is computed at run time panics on zero.\<close>

definition go_div :: "int64 \<Rightarrow> int64 \<Rightarrow> panic + int64" where
  "go_div a b = (if b = 0 then Inl DivideByZero else Inr (quo64 a b))"

definition bytes_of :: "string \<Rightarrow> bytes" where
  "bytes_of s = map (\<lambda>ch. of_nat (of_char ch)) s"

section \<open>The random source\<close>

text \<open>
  \<^verbatim>\<open>math/rand\<close> is Go's standard library. Its global generator is an arbitrary infinite
  sequence of draws together with the position of the next one: \<^verbatim>\<open>rand.Intn(n)\<close> takes
  one draw and reduces it into \<open>[0, n)\<close>, \<^verbatim>\<open>rand.Read(b)\<close> overwrites the \<open>len(b)\<close>
  bytes of \<open>b\<close> with the next draws. Every sequence of results the library can give is
  the image of some sequence of draws.
\<close>

type_synonym rng = "(nat \<Rightarrow> nat) \<times> nat"

definition rand_Intn :: "nat \<Rightarrow> rng \<Rightarrow> nat \<times> rng" where
  "rand_Intn n g = (case g of (f, p) \<Rightarrow> (f p mod n, (f, Suc p)))"

definition rand_Read :: "nat \<Rightarrow> rng \<Rightarrow> bytes \<times> rng" where
  "rand_Read k g = (case g of (f, p) \<Rightarrow> (map (\<lambda>j. of_nat (f j)) [p..<p + k], (f, p + k)))"

section \<open>Key generator\<close>

text \<open>\<^verbatim>\<open>binary.BigEndian.PutUint64\<close>: the most significant byte first.\<close>

definition PutUint64 :: "uint64 \<Rightarrow> bytes" where
  "PutUint64 v =
     [ucast (drop_bit 56 v), ucast (drop_bit 48 v), ucast (drop_bit 40 v),
      ucast (drop_bit 32 v), ucast (drop_bit 24 v), ucast (drop_bit 16 v),
      ucast (drop_bit 8 v), ucast v]"

text \<open>
  \<^verbatim>\<open>genKey\<close>: nine bytes, a random printable leading byte and the index in big-endian
  order behind it.
\<close>

definition genKey :: "uint64 \<Rightarrow> rng \<Rightarrow> bytes \<times> rng" where
  "genKey i g =
     (let (v, g') = rand_Intn (127 - 32) g;
          r = replicate 9 (0 :: byte);
          r = r[0 := of_nat (32 + v)]
      in (take 1 r @ PutUint64 i, g'))"

text \<open>\<^verbatim>\<open>genKeyPrefix\<close>: three random bytes, the first one printable; the index is unused.\<close>

definition genKeyPrefix :: "uint64 \<Rightarrow> rng \<Rightarrow> bytes \<times> rng" where
  "genKeyPrefix i g =
     (let (r, g1) = rand_Read 3 g;
          (v, g2) = rand_Intn (127 - 32) g1
      in (r[0 := of_nat (32 + v)], g2))"

section \<open>The record of a run\<close>

record Record =
  Name :: string
  Headers :: "string list"
  Values :: "int64 list"

definition add_header :: "string \<Rightarrow> Record \<Rightarrow> Record" where
  "add_header h r = r\<lparr>Headers := Headers r @ [h]\<rparr>"

definition add_value :: "int64 \<Rightarrow> Record \<Rightarrow> Record" where
  "add_value v r = r\<lparr>Values := Values r @ [v]\<rparr>"

text \<open>
  Lines 72 to 76 of \<^verbatim>\<open>main\<close>: the record is created with no values, and the header
  \<^verbatim>\<open>"name"\<close> is appended at once.
\<close>

definition newRecord :: "string \<Rightarrow> Record" where
  "newRecord name = add_header ''name'' \<lparr>Name = name, Headers = [], Values = []\<rparr>"

section \<open>Bulk load\<close>

text \<open>
  The first inner loop of \<^verbatim>\<open>testBatchWriteFixCount\<close> appends \<open>n\<close> keys
  \<^verbatim>\<open>genKey(uint64(endIdx-startIdx))\<close> and \<open>n\<close> zeroed values of \<^verbatim>\<open>*size\<close> bytes.
\<close>

fun genPage :: "nat \<Rightarrow> uint64 \<Rightarrow> nat \<Rightarrow> rng \<Rightarrow> bytes list \<times> bytes list \<times> rng" where
  "genPage 0 x vsize g = ([], [], g)"
| "genPage (Suc n) x vsize g =
     (let (key, g1) = genKey x g;
          (keyList, valList, g2) = genPage n x vsize g1
      in (key # keyList, replicate vsize 0 # valList, g2))"

text \<open>
  The second inner loop overwrites every key and value with random bytes and then forces
  the key's leading byte to \<^verbatim>\<open>byte(32 + rand.Intn(127 - 32))\<close>. The two lists have the
  same length, so the loop runs over their pairs.
\<close>

fun fillPage :: "(bytes \<times> bytes) list \<Rightarrow> rng \<Rightarrow> bytes list \<times> bytes list \<times> rng" where
  "fillPage [] g = ([], [], g)"
| "fillPage ((key, val) # kvs) g =
     (let (key1, g1) = rand_Read (length key) g;
          (val1, g2) = rand_Read (length val) g1;
          (v, g3) = rand_Intn (127 - 32) g2;
          key2 = key1[0 := of_nat (32 + v)];
          (keyList, valList, g4) = fillPage kvs g3
      in (key2 # keyList, val1 # valList, g4))"

text \<open>
  The page loop. \<open>pset_err i\<close> tells whether the store's \<^verbatim>\<open>PSet\<close> returns an error for
  page \<open>i\<close>; the driver panics on it. The result lists the \<^verbatim>\<open>PSet\<close> calls issued, in
  order, each with its key list and its value list, and the running \<^verbatim>\<open>total\<close>.
  \<^verbatim>\<open>make([]byte, *size)\<close> panics on a negative size.
\<close>

fun bulkLoop ::
  "(nat \<Rightarrow> bool) \<Rightarrow> int \<Rightarrow> nat list \<Rightarrow> rng \<Rightarrow> uint64 \<Rightarrow>
     (bytes list \<times> bytes list) list \<times> (panic + rng \<times> uint64)" where
  "bulkLoop pset_err vsize [] g tot = ([], Inr (g, tot))"
| "bulkLoop pset_err vsize (i # pages) g tot =
     (let startIdx = (of_nat i :: int64) * 1000;
          endIdx = startIdx + 1000;
          n = (if sint startIdx < sint endIdx then unat (endIdx - startIdx) else 0)
      in if 0 < n \<and> vsize < 0 then ([], Inl NegativeLength)
         else
           let (keyList0, valList0, g1) = genPage n (endIdx - startIdx) (nat vsize) g;
               (keyList, valList, g2) = fillPage (zip keyList0 valList0) g1
           in if pset_err i then ([(keyList, valList)], Inl PSetFailed)
              else
                let (calls, res) =
                      bulkLoop pset_err vsize pages g2 (tot + of_nat (length keyList))
                in ((keyList, valList) # calls, res))"

definition pageCount :: "int64 \<Rightarrow> int64" where
  "pageCount count =
     (if rem64 count 1000 = 0 then quo64 count 1000 else quo64 count 1000 + 1)"

text \<open>
  \<open>cost\<close> is \<^verbatim>\<open>int(time.Since(start).Seconds())\<close>, a reading of the clock.
\<close>

definition testBatchWriteFixCount ::
  "Record \<Rightarrow> (nat \<Rightarrow> bool) \<Rightarrow> int \<Rightarrow> rng \<Rightarrow> int64 \<Rightarrow> int64 \<Rightarrow>
     (bytes list \<times> bytes list) list \<times> (panic + Record)" where
  "testBatchWriteFixCount record pset_err vsize g cost count =
     (let (calls, res) = bulkLoop pset_err vsize [0..<nat (sint (pageCount count))] g 0
      in (calls,
          case res of
            Inl p \<Rightarrow> Inl p
          | Inr _ \<Rightarrow> Inr (add_value cost (add_header ''batch write cost(s)'' record))))"

section \<open>Resource samplers\<close>

text \<open>\<open>alloc\<close> and \<open>heapInuse\<close> are the fields of \<^verbatim>\<open>runtime.MemStats\<close> the function reads.\<close>

definition showMemUsage :: "Record \<Rightarrow> uint64 \<Rightarrow> uint64 \<Rightarrow> Record" where
  "showMemUsage record alloc heapInuse =
     add_value (heapInuse div 1024 div 1024)
       (add_header ''HeapInuse(MiB)''
         (add_value (alloc div 1024 div 1024)
           (add_header ''MemUsage(MiB)'' record)))"

text \<open>
  What \<^verbatim>\<open>os.Stat\<close> answers: the path does not exist, another error (then the file info
  is nil), or a file info with its directory flag and size.
\<close>

datatype stat_result = StatNotExist | StatFailed | StatInfo bool int64

text \<open>
  What \<^verbatim>\<open>filepath.Walk\<close> passes to the callback of \<^verbatim>\<open>GetDirSize\<close>: no file info at all,
  or a file info (directory flag, size) and whether the error passed along is non-nil.
\<close>

datatype walk_entry = WalkNoInfo | WalkInfo bool int64 bool

fun GetDirSize :: "walk_entry list \<Rightarrow> int64 \<Rightarrow> panic + int64" where
  "GetDirSize [] tot = Inr tot"
| "GetDirSize (WalkNoInfo # es) tot = Inl NilDereference"
| "GetDirSize (WalkInfo isDir sz err # es) tot =
     (let tot' = (if \<not> isDir then tot + sz else tot)
      in if err then Inr tot' else GetDirSize es tot')"

definition showDiskUsage :: "Record \<Rightarrow> stat_result \<Rightarrow> walk_entry list \<Rightarrow> panic + Record" where
  "showDiskUsage record st walk =
     (case st of
        StatNotExist \<Rightarrow> Inr record
      | StatFailed \<Rightarrow> Inl NilDereference
      | StatInfo isDir sz \<Rightarrow>
          (case (if isDir then GetDirSize walk 0 else Inr sz) of
             Inl p \<Rightarrow> Inl p
           | Inr fileSize \<Rightarrow>
               Inr (add_value (quo64 (quo64 fileSize 1024) 1024)
                     (add_header ''DiskUsage(MiB)'' record))))"

section \<open>Time-bounded phases\<close>

text \<open>
  A worker of a time-bounded phase loops until the phase's deadline: it checks the
  cancellation signal and, when it is not set, makes one store call, advances its index
  by \<^verbatim>\<open>uint64(*c)\<close> and increments its local counter. How often it gets to run before
  the deadline, and what the store answers, belongs to the run: the number of completed
  iterations, or the list of the store's answers, is an input. A worker's outcome is the
  list of indices it passed to the key generator, in order, and its final counter.
\<close>

type_synonym worker_out = "uint64 list \<times> int64"
type_synonym stat_line = "int64 \<times> int64"

text \<open>The loop of \<^verbatim>\<open>testSet\<close>, \<^verbatim>\<open>testDelete\<close> and the readers of \<^verbatim>\<open>testGetSet\<close>.\<close>

fun strideLoop :: "uint64 \<Rightarrow> uint64 \<Rightarrow> int64 \<Rightarrow> nat \<Rightarrow> worker_out" where
  "strideLoop c i count 0 = ([], count)"
| "strideLoop c i count (Suc k) =
     (let (tr, n) = strideLoop c (i + c) (count + 1) k in (i # tr, n))"

text \<open>The loop of \<^verbatim>\<open>testGet\<close>; \<open>ok\<close> is the second result of \<^verbatim>\<open>store.Get\<close>.\<close>

fun getLoop :: "uint64 \<Rightarrow> uint64 \<Rightarrow> uint64 \<Rightarrow> int64 \<Rightarrow> bool list \<Rightarrow> worker_out" where
  "getLoop c index i count [] = ([], count)"
| "getLoop c index i count (ok # oks) =
     (let i1 = (if \<not> ok then index else i);
          (tr, n) = getLoop c index (i1 + c) (count + 1) oks
      in (i # tr, n))"

text \<open>The loop of \<^verbatim>\<open>testKeys\<close>; \<open>err\<close> tells whether \<^verbatim>\<open>store.Keys\<close> returned an error.\<close>

fun keysLoop :: "uint64 \<Rightarrow> uint64 \<Rightarrow> uint64 \<Rightarrow> int64 \<Rightarrow> bool list \<Rightarrow> worker_out" where
  "keysLoop c index i count [] = ([], count)"
| "keysLoop c index i count (err # errs) =
     (let i1 = (if err then index else i);
          (tr, n) = keysLoop c index (i1 + c) (count + 1) errs
      in (i # tr, n))"

text \<open>\<^verbatim>\<open>for _, count := range counts { n += count }\<close>\<close>

definition sum_counts :: "int64 list \<Rightarrow> int64" where
  "sum_counts counts = foldl (\<lambda>n count. n + count) 0 counts"

text \<open>
  The lines that close \<^verbatim>\<open>testGet\<close>, \<^verbatim>\<open>testKeys\<close>, \<^verbatim>\<open>testSet\<close> and \<^verbatim>\<open>testDelete\<close>, and the
  second half of \<^verbatim>\<open>testGetSet\<close>: the rate \<^verbatim>\<open>int64(n)*1e6/(d/1e3)\<close> and the mean
  \<^verbatim>\<open>d/int64((n)*(*c))\<close> are printed, then the header and the rate are appended to the
  record. \<open>d\<close> is the elapsed time in nanoseconds. The result is the printed pair and
  the record.
\<close>

definition report ::
  "string \<Rightarrow> Record \<Rightarrow> int64 list \<Rightarrow> int64 \<Rightarrow> int64 \<Rightarrow> panic + stat_line \<times> Record" where
  "report header record counts c d =
     (let n = sum_counts counts
      in case go_div (n * 1000000) (quo64 d 1000) of
           Inl p \<Rightarrow> Inl p
         | Inr rate \<Rightarrow>
             (case go_div d (n * c) of
                Inl p \<Rightarrow> Inl p
              | Inr mean \<Rightarrow> Inr ((rate, mean), add_value rate (add_header header record))))"

text \<open>
  The phases. \<^verbatim>\<open>wg.Add(*c)\<close> and \<^verbatim>\<open>make([]int, *c)\<close> panic on a negative worker count.
  Worker \<open>j\<close> starts at \<^verbatim>\<open>index := uint64(j)\<close>. The first component of the result lists
  the workers spawned, with what each did.
\<close>

definition testSet ::
  "Record \<Rightarrow> int64 \<Rightarrow> (nat \<Rightarrow> nat) \<Rightarrow> int64 \<Rightarrow> worker_out list \<times> (panic + stat_line \<times> Record)" where
  "testSet record c iters d =
     (if sint c < 0 then ([], Inl NegativeWaitGroup)
      else
        let ws = map (\<lambda>j. strideLoop c (of_nat j) 0 (iters j)) [0..<nat (sint c)]
        in (ws, report ''Set op/s'' record (map snd ws) c d))"

definition testDelete ::
  "Record \<Rightarrow> int64 \<Rightarrow> (nat \<Rightarrow> nat) \<Rightarrow> int64 \<Rightarrow> worker_out list \<times> (panic + stat_line \<times> Record)" where
  "testDelete record c iters d =
     (if sint c < 0 then ([], Inl NegativeWaitGroup)
      else
        let ws = map (\<lambda>j. strideLoop c (of_nat j) 0 (iters j)) [0..<nat (sint c)]
        in (ws, report ''Del op/s'' record (map snd ws) c d))"

definition testGet ::
  "Record \<Rightarrow> int64 \<Rightarrow> (nat \<Rightarrow> bool list) \<Rightarrow> int64 \<Rightarrow>
     worker_out list \<times> (panic + stat_line \<times> Record)" where
  "testGet record c oks d =
     (if sint c < 0 then ([], Inl NegativeWaitGroup)
      else
        let ws = map (\<lambda>j. getLoop c (of_nat j) (of_nat j) 0 (oks j)) [0..<nat (sint c)]
        in (ws, report ''Get op/s'' record (map snd ws) c d))"

text \<open>The errors of the storage contract the driver tells apart.\<close>

datatype db_error = ErrNotFound | ErrEngine

datatype store_error = ErrNotSupported | ErrMemoryNotAllowed | ErrDB db_error

text \<open>
  \<^verbatim>\<open>testKeys\<close> first calls \<^verbatim>\<open>store.Keys\<close> once; \<open>probe\<close> is the error of that call.
  The prefix of every scan comes from \<^verbatim>\<open>genKeyPrefix\<close>, which draws it from the random
  source and does not look at the index; what the store answers is an input here, as
  in the other phases.
\<close>

definition testKeys ::
  "Record \<Rightarrow> int64 \<Rightarrow> store_error option \<Rightarrow> (nat \<Rightarrow> bool list) \<Rightarrow> int64 \<Rightarrow>
     worker_out list \<times> (panic + stat_line \<times> Record)" where
  "testKeys record c probe errs d =
     (if probe = Some ErrNotSupported
      then ([], Inr ((- 1, - 1), add_value (- 1) (add_header ''Keys op/s'' record)))
      else if sint c < 0 then ([], Inl NegativeWaitGroup)
      else
        let ws = map (\<lambda>j. keysLoop c (of_nat j) (of_nat j) 0 (errs j)) [0..<nat (sint c)]
        in (ws, report ''Keys op/s'' record (map snd ws) c d))"

text \<open>
  \<^verbatim>\<open>testGetSet\<close>: the writer's counter is not synchronised, and the writer may still
  run when the readers have joined. The driver reads the counter four times: for the
  test against zero, for the rate and for the mean it prints, and for the rate it
  records. \<open>setCount k\<close> is what read \<open>k\<close> sees.
\<close>

definition testGetSet ::
  "Record \<Rightarrow> int64 \<Rightarrow> (nat \<Rightarrow> uint64) \<Rightarrow> (nat \<Rightarrow> nat) \<Rightarrow> int64 \<Rightarrow>
     worker_out list \<times> (panic + stat_line list \<times> Record)" where
  "testGetSet record c setCount iters d =
     (if sint c < 0 then ([], Inl NegativeWaitGroup)
      else
        let ws = map (\<lambda>j. strideLoop c (of_nat j) 0 (iters j)) [0..<nat (sint c)];
            r1 = add_header ''Setmixed op/s'' record;
            setmixed =
              (if setCount 0 = 0 then Inr ((- 1, - 1), add_value (- 1) r1)
               else
                 case go_div (setCount 1 * 1000000) (quo64 d 1000) of
                   Inl p \<Rightarrow> Inl p
                 | Inr rate \<Rightarrow>
                     (case go_div d (setCount 2) of
                        Inl p \<Rightarrow> Inl p
                      | Inr mean \<Rightarrow>
                          (case go_div (setCount 3 * 1000000) (quo64 d 1000) of
                             Inl p \<Rightarrow> Inl p
                           | Inr recorded \<Rightarrow> Inr ((rate, mean), add_value recorded r1))))
        in (ws,
            case setmixed of
              Inl p \<Rightarrow> Inl p
            | Inr (line1, r2) \<Rightarrow>
                (case report ''Getmixed op/s'' r2 (map snd ws) c d of
                   Inl p \<Rightarrow> Inl p
                 | Inr (line2, r3) \<Rightarrow> Inr ([line1, line2], r3))))"

section \<open>The record sink\<close>

text \<open>\<^verbatim>\<open>strconv.Itoa\<close>: the decimal digits of a signed integer.\<close>

fun digits_of :: "nat \<Rightarrow> string" where
  "digits_of n =
     (if n < 10 then [''0123456789'' ! n]
      else digits_of (n div 10) @ [''0123456789'' ! (n mod 10)])"

definition Itoa :: "int64 \<Rightarrow> string" where
  "Itoa v =
     (if sint v < 0 then CHR ''-'' # digits_of (nat (- sint v)) else digits_of (nat (sint v)))"

definition ledger_row :: "Record \<Rightarrow> string list" where
  "ledger_row record = Name record # map Itoa (Values record)"

text \<open>
  \<^verbatim>\<open>saveReorder\<close>: the ledger is the list of rows of the file at \<^verbatim>\<open>*savePath\<close>, or
  \<open>None\<close> when the file does not exist. Failures of the file system end the process and
  are left out.
\<close>

definition saveReorder ::
  "string \<Rightarrow> Record \<Rightarrow> string list list option \<Rightarrow> string list list option" where
  "saveReorder savePath record ledger =
     (if savePath = [] then ledger
      else
        case ledger of
          None \<Rightarrow> Some [Headers record, ledger_row record]
        | Some rows \<Rightarrow> Some (rows @ [ledger_row record]))"

section \<open>The run\<close>

text \<open>
  Everything a run takes from outside: the flags, the random source, the answers of the
  store, the readings of the clock, of the memory statistics and of the file system.
\<close>

record World =
  arg_s :: string
  arg_fsync :: bool
  arg_c :: int64
  arg_set :: int64
  arg_size :: int
  arg_save :: string
  open_failed :: bool
  rand_source :: rng
  pset_err :: "nat \<Rightarrow> bool"
  bulk_cost :: int64
  mem_alloc :: uint64
  mem_heapInuse :: uint64
  path_stat :: stat_result
  path_walk :: "walk_entry list"
  keys_probe :: "store_error option"
  keys_errs :: "nat \<Rightarrow> bool list"
  keys_dur :: int64
  set_iters :: "nat \<Rightarrow> nat"
  set_dur :: int64
  get_oks :: "nat \<Rightarrow> bool list"
  get_dur :: int64
  mixed_setCount :: "nat \<Rightarrow> uint64"
  mixed_iters :: "nat \<Rightarrow> nat"
  mixed_dur :: int64
  del_iters :: "nat \<Rightarrow> nat"
  del_dur :: int64
  ledger_file :: "string list list option"

text \<open>
  \<^verbatim>\<open>getStore\<close>: an unknown store type is an error; otherwise an empty path becomes the
  store type followed by \<^verbatim>\<open>.db\<close> and the backend's constructor is called. The
  constructors of LevelDB and Pebble refuse the path \<^verbatim>\<open>:memory:\<close>; \<open>failed\<close> tells
  whether the constructor fails for another reason. The result is the path.
\<close>

definition getStore :: "string \<Rightarrow> bool \<Rightarrow> string \<Rightarrow> store_error + string" where
  "getStore s failed path =
     (if s \<notin> set [''map'', ''btree'', ''bolt'', ''bbolt'', ''leveldb'', ''kv'', ''badger'',
                   ''buntdb'', ''pebble'', ''pogreb'', ''nutsdb'']
      then Inl (ErrDB ErrEngine)
      else
        let path' = (if path = [] then s @ ''.db'' else path)
        in if (s = ''leveldb'' \<or> s = ''pebble'') \<and> path' = '':memory:''
           then Inl ErrMemoryNotAllowed
           else if failed then Inl (ErrDB ErrEngine)
           else Inr path')"

text \<open>The name of the run, lines 46 to 71 of \<^verbatim>\<open>main\<close>.\<close>

definition run_name :: "string \<Rightarrow> bool \<Rightarrow> string" where
  "run_name s0 fsync =
     (let memory = suffix ''/memory'' s0;
          s = (if memory then take (length s0 - length ''/memory'') s0 else s0);
          name = s;
          name = (if memory then name @ ''/memory'' else name)
      in if fsync then name @ ''/fsync'' else name @ ''/nofsync'')"

text \<open>
  The phases of \<^verbatim>\<open>main\<close> run one after another on the same record; a panic ends the
  run. The result lists the record as it was created and as each phase that returned
  left it, and the panic, if any.
\<close>

fun run_phases ::
  "(Record \<Rightarrow> panic + Record) list \<Rightarrow> Record \<Rightarrow> Record list \<times> panic option" where
  "run_phases [] r = ([r], None)"
| "run_phases (f # fs) r =
     (case f r of
        Inl p \<Rightarrow> ([r], Some p)
      | Inr r' \<Rightarrow> (let (rs, e) = run_phases fs r' in (r # rs, e)))"

definition returned :: "'w \<times> (panic + 'l \<times> Record) \<Rightarrow> panic + Record" where
  "returned out = (case snd out of Inl p \<Rightarrow> Inl p | Inr (l, r) \<Rightarrow> Inr r)"

text \<open>Lines 77 to 79: the bulk load and the two samplers.\<close>

definition load_phases :: "World \<Rightarrow> (Record \<Rightarrow> panic + Record) list" where
  "load_phases w =
     [\<lambda>r. snd (testBatchWriteFixCount r (pset_err w) (arg_size w) (rand_source w)
                 (bulk_cost w) (arg_set w)),
      \<lambda>r. Inr (showMemUsage r (mem_alloc w) (mem_heapInuse w)),
      \<lambda>r. showDiskUsage r (path_stat w) (path_walk w)]"

text \<open>Line 80.\<close>

definition keys_phase :: "World \<Rightarrow> Record \<Rightarrow> panic + Record" where
  "keys_phase w r = returned (testKeys r (arg_c w) (keys_probe w) (keys_errs w) (keys_dur w))"

text \<open>Lines 81 to 84.\<close>

definition later_phases :: "World \<Rightarrow> (Record \<Rightarrow> panic + Record) list" where
  "later_phases w =
     [\<lambda>r. returned (testSet r (arg_c w) (set_iters w) (set_dur w)),
      \<lambda>r. returned (testGet r (arg_c w) (get_oks w) (get_dur w)),
      \<lambda>r. returned (testGetSet r (arg_c w) (mixed_setCount w) (mixed_iters w) (mixed_dur w)),
      \<lambda>r. returned (testDelete r (arg_c w) (del_iters w) (del_dur w))]"

text \<open>
  \<^verbatim>\<open>main\<close>: the records of the run, the panic that ended it, if any, and the ledger
  afterwards; \<^verbatim>\<open>saveReorder\<close> is reached only when no phase panicked.
\<close>

definition main ::
  "World \<Rightarrow> Record list \<times> panic option \<times> string list list option" where
  "main w =
     (let memory = suffix ''/memory'' (arg_s w);
          path = (if memory then '':memory:'' else []);
          s = (if memory then take (length (arg_s w) - length ''/memory'') (arg_s w)
               else arg_s w)
      in case getStore s (open_failed w) path of
           Inl err \<Rightarrow> ([], Some OpenFailed, ledger_file w)
         | Inr path' \<Rightarrow>
             (let record = newRecord (run_name (arg_s w) (arg_fsync w));
                  (rs, e) = run_phases (load_phases w @ keys_phase w # later_phases w) record
              in (rs, e,
                  case e of
                    Some p \<Rightarrow> ledger_file w
                  | None \<Rightarrow> saveReorder (arg_save w) (last rs) (ledger_file w))))"

section \<open>Backend adapters\<close>

text \<open>
  The storage engines are libraries. An engine's handle is the table of its entries,
  sorted by key, and a fault that makes every read fail, if there is one. A point read
  answers the value, or the engine's \<^verbatim>\<open>ErrNotFound\<close>; an iterator walks the entries whose
  key has a prefix (goleveldb's \<^verbatim>\<open>util.BytesPrefix\<close>) or lies between a lower bound and
  an upper bound, the upper one excluded (Pebble's \<^verbatim>\<open>IterOptions\<close>). An iterator over a
  faulty engine walks nothing and keeps the fault as its error, which neither adapter
  asks for. The entries are the bytes the iterator shows at each step: both adapters
  keep the slices of \<^verbatim>\<open>iter.Key()\<close> and \<^verbatim>\<open>iter.Value()\<close> without copying them, and what
  those slices hold once the iterator has moved on is the engine's business, outside
  this model.
\<close>

record db =
  tbl :: "(bytes \<times> bytes) list"
  fault :: "db_error option"

definition db_Get :: "db \<Rightarrow> bytes \<Rightarrow> bytes option \<times> db_error option" where
  "db_Get d key =
     (case fault d of
        Some e \<Rightarrow> (None, Some e)
      | None \<Rightarrow>
          (case map_of (tbl d) key of
             None \<Rightarrow> (None, Some ErrNotFound)
           | Some v \<Rightarrow> (Some v, None)))"

definition iter_prefix :: "db \<Rightarrow> bytes \<Rightarrow> (bytes \<times> bytes) list" where
  "iter_prefix d p =
     (case fault d of
        Some e \<Rightarrow> []
      | None \<Rightarrow> filter (\<lambda>kv. prefix p (fst kv)) (tbl d))"

definition iter_range :: "db \<Rightarrow> bytes \<Rightarrow> bytes \<Rightarrow> (bytes \<times> bytes) list" where
  "iter_range d lower upper =
     (case fault d of
        Some e \<Rightarrow> []
      | None \<Rightarrow> filter (\<lambda>kv. lower \<le> fst kv \<and> fst kv < upper) (tbl d))"

text \<open>\<^verbatim>\<open>leveldbStore.Get\<close> and \<^verbatim>\<open>leveldbStore.Keys\<close>.\<close>

definition leveldbStore_Get :: "db \<Rightarrow> bytes \<Rightarrow> bytes option \<times> bool \<times> store_error option" where
  "leveldbStore_Get d key =
     (let (v, err) = db_Get d key
      in case err of
           Some e \<Rightarrow> if e = ErrNotFound then (None, False, None) else (None, False, Some (ErrDB e))
         | None \<Rightarrow> (v, True, None))"

definition leveldbStore_Keys ::
  "db \<Rightarrow> bytes \<Rightarrow> int64 \<Rightarrow> bool \<Rightarrow> bytes list \<times> bytes list \<times> store_error option" where
  "leveldbStore_Keys d pattern limit withvalues =
     (let it = iter_prefix d (bytes_of ''foo-'')
      in (map fst it, if withvalues then map snd it else [], None))"

text \<open>\<^verbatim>\<open>pebbleStore.Get\<close> and \<^verbatim>\<open>pebbleStore.Keys\<close>.\<close>

definition pebbleStore_Get :: "db \<Rightarrow> bytes \<Rightarrow> bytes option \<times> bool \<times> store_error option" where
  "pebbleStore_Get d key =
     (let (v, err) = db_Get d key
      in case err of
           Some e \<Rightarrow> (None, False, Some (ErrDB e))
         | None \<Rightarrow> (v, v \<noteq> None, None))"

definition pebbleStore_Keys ::
  "db \<Rightarrow> bytes \<Rightarrow> int64 \<Rightarrow> bool \<Rightarrow> bytes list \<times> bytes list \<times> store_error option" where
  "pebbleStore_Keys d pattern limit withvals =
     (let pfx = bytes_of ''myprefix'';
          it = iter_range d pfx (pfx @ [0xFF])
      in (map fst it, if withvals then map snd it else [], None))"

section \<open>An example world\<close>

text \<open>
  A small run for the concrete instances below: the store type \<^verbatim>\<open>map/memory\<close>, two
  workers, an empty bulk load, a store that answers \<^verbatim>\<open>ErrNotSupported\<close> to prefix scans
  and no file at the store's path.
\<close>

definition example_world :: World where
  "example_world =
     \<lparr>arg_s = ''map/memory'', arg_fsync = False, arg_c = 2, arg_set = 0, arg_size = 256,
      arg_save = ''nofsync.csv'', open_failed = False, rand_source = (\<lambda>j. j, 0),
      pset_err = (\<lambda>i. False), bulk_cost = 7, mem_alloc = 5242880, mem_heapInuse = 7340032,
      path_stat = StatNotExist, path_walk = [],
      keys_probe = Some ErrNotSupported, keys_errs = (\<lambda>j. []), keys_dur = 5000,
      set_iters = (\<lambda>j. 3), set_dur = 5000,
      get_oks = (\<lambda>j. [False, True, True]), get_dur = 6000,
      mixed_setCount = (\<lambda>k. 4), mixed_iters = (\<lambda>j. 3), mixed_dur = 5000,
      del_iters = (\<lambda>j. 3), del_dur = 5000, ledger_file = None\<rparr>"

section \<open>Columns appended by a phase\<close>

text \<open>
  Two notions for the proofs about the record. \<open>extend hs vs r\<close> is \<open>r\<close> with the headers
  \<open>hs\<close> and the values \<open>vs\<close> appended. A phase \<open>appends\<close> the headers \<open>hs\<close> when, whatever
  record it is given, it either panics or returns that record extended by \<open>hs\<close> and by
  as many values, the panic and the values being the same for every record.
\<close>

definition extend :: "string list \<Rightarrow> int64 list \<Rightarrow> Record \<Rightarrow> Record" where
  "extend hs vs r = r\<lparr>Headers := Headers r @ hs, Values := Values r @ vs\<rparr>"

definition appends :: "string list \<Rightarrow> (Record \<Rightarrow> panic + Record) \<Rightarrow> bool" where
  "appends hs f =
     (\<exists>res. (\<forall>r. f r = (case res of Inl p \<Rightarrow> Inl p | Inr vs \<Rightarrow> Inr (extend hs vs r)))
        \<and> (case res of Inl p \<Rightarrow> True | Inr vs \<Rightarrow> length vs = length hs))"

section \<open>Signed 64-bit arithmetic\<close>

lemma sint_word_of_int_64:
  "- (2 ^ 63) \<le> k \<Longrightarrow> k < 2 ^ 63 \<Longrightarrow> sint (word_of_int k :: int64) = k"
  by (simp add: sint_sbintrunc' signed_take_bit_int_eq_self)

lemma sint_range_64: "- (2 ^ 63) \<le> sint (a :: int64)" "sint (a :: int64) < 2 ^ 63"
  using sint_ge [of a] sint_lt [of a] by simp_all

lemma sdiv_nonneg: "0 \<le> a \<Longrightarrow> 0 \<le> b \<Longrightarrow> (a :: int) sdiv b = a div b"
  by (cases "a = 0"; cases "b = 0") (simp_all add: signed_divide_int_def)

lemma sint_quo64:
  assumes "0 \<le> sint a" and "0 \<le> sint b"
  shows "sint (quo64 a b) = sint a div sint b"
proof -
  have "0 \<le> sint a div sint b"
    using assms by (simp add: pos_imp_zdiv_nonneg_iff div_int_pos_iff)
  moreover have "sint a div sint b \<le> sint a"
  proof (cases "sint b = 0")
    case True
    then show ?thesis using assms by simp
  next
    case False
    then have "1 \<le> sint b" using assms by simp
    then have "sint a div sint b \<le> sint a div 1"
      using assms(1) by (intro zdiv_mono2) simp_all
    then show ?thesis by simp
  qed
  ultimately show ?thesis
    using assms sint_range_64(2) [of a]
    by (simp add: quo64_def sdiv_nonneg sint_word_of_int_64)
qed


section \<open>Columns of the record\<close>

lemma Record_add [simp]:
  "Values (add_value v r) = Values r @ [v]" "Values (add_header h r) = Values r"
  "Headers (add_value v r) = Headers r" "Headers (add_header h r) = Headers r @ [h]"
  "Name (add_value v r) = Name r" "Name (add_header h r) = Name r"
  by (simp_all add: add_value_def add_header_def)

section \<open>Metrics\<close>


text \<open>
  Without a completed operation the mean's divisor \<^verbatim>\<open>n * c\<close> is zero and the phase
  panics; so it does when the phase took less than a microsecond.
\<close>

lemma report_no_operation:
  "sum_counts counts = 0 \<Longrightarrow> report h r counts c d = Inl DivideByZero"
  by (simp add: report_def go_div_def Let_def split: sum.splits)



section \<open>Workers and their indices\<close>

lemma getLoop_count: "snd (getLoop c index i count oks) = count + of_nat (length oks)"
  by (induction oks arbitrary: i count) (simp_all add: Let_def split_beta)

lemma getLoop_length: "length (fst (getLoop c index i count oks)) = length oks"
  by (induction oks arbitrary: i count) (simp_all add: Let_def split_beta)

lemma getLoop_first: "oks \<noteq> [] \<Longrightarrow> fst (getLoop c index i count oks) ! 0 = i"
  by (cases oks) (simp_all add: Let_def split_beta)

lemma getLoop_next:
  "Suc k < length oks \<Longrightarrow>
     fst (getLoop c index i count oks) ! Suc k =
       (if oks ! k then fst (getLoop c index i count oks) ! k else index) + c"
proof (induction oks arbitrary: i count k)
  case Nil
  then show ?case by simp
next
  case (Cons ok oks)
  show ?case
  proof (cases k)
    case 0
    then have "oks \<noteq> []" using Cons.prems by auto
    then show ?thesis using 0 getLoop_first [of oks c index _ "count + 1"]
      by (simp add: Let_def split_beta)
  next
    case (Suc k')
    then have "Suc k' < length oks" using Cons.prems by simp
    from Cons.IH [OF this] show ?thesis using Suc
      by (simp add: Let_def split_beta)
  qed
qed

lemma getLoop_index:
  "k < length oks \<Longrightarrow>
     \<exists>m\<le>m0 + k. fst (getLoop c index (index + of_nat m0 * c) count oks) ! k = index + of_nat m * c"
proof (induction oks arbitrary: m0 count k)
  case Nil
  then show ?case by simp
next
  case (Cons ok oks)
  show ?case
  proof (cases k)
    case 0
    then show ?thesis by (auto simp add: Let_def split_beta)
  next
    case (Suc k')
    then have k': "k' < length oks" using Cons.prems by simp
    define m1 where "m1 = (if ok then Suc m0 else 1)"
    have step: "(if \<not> ok then index else index + of_nat m0 * c) + c = index + of_nat m1 * c"
      by (simp add: m1_def algebra_simps)
    from Cons.IH [OF k', of m1 "count + 1"] obtain m where
      "m \<le> m1 + k'" "fst (getLoop c index (index + of_nat m1 * c) (count + 1) oks) ! k' = index + of_nat m * c"
      by blast
    moreover have "m1 + k' \<le> m0 + k" using Suc by (simp add: m1_def)
    ultimately show ?thesis using Suc step
      by (auto simp add: Let_def split_beta intro!: exI [of _ m])
  qed
qed

lemma strideLoop_count: "snd (strideLoop c i count n) = count + of_nat n"
  by (induction n arbitrary: i count) (simp_all add: Let_def split_beta)

lemma strideLoop_length: "length (fst (strideLoop c i count n)) = n"
  by (induction n arbitrary: i count) (simp_all add: Let_def split_beta)

lemma strideLoop_index: "k < n \<Longrightarrow> fst (strideLoop c i count n) ! k = i + of_nat k * c"
proof (induction n arbitrary: i count k)
  case 0
  then show ?case by simp
next
  case (Suc n)
  show ?case
  proof (cases k)
    case 0
    then show ?thesis by (simp add: Let_def split_beta)
  next
    case (Suc k')
    then have "k' < n" using Suc.prems by simp
    from Suc.IH [OF this, of "i + c" "count + 1"] show ?thesis using Suc
      by (simp add: Let_def split_beta algebra_simps)
  qed
qed


lemma nat_sint_unat: "0 \<le> sint (c :: int64) \<Longrightarrow> nat (sint c) = unat c"
proof -
  assume nn: "0 \<le> sint c"
  have "sint c < 2 ^ 64" using sint_range_64(2) [of c] by simp
  then have "take_bit 64 (sint c) = sint c" using nn by (simp add: take_bit_int_eq_self)
  then have "uint c = sint c" using uint_sint [of c] by simp
  then show ?thesis by (simp add: unat_eq_nat_uint)
qed

lemma stride_word: "(of_nat w :: uint64) + of_nat k * c = of_nat (w + k * unat c)"
  by simp

lemma unat_stride:
  "w + k * unat c < 2 ^ 64 \<Longrightarrow> unat ((of_nat w :: uint64) + of_nat k * c) = w + k * unat c"
  by (simp only: stride_word unat_of_nat) simp

lemma stride_unique:
  fixes C :: nat
  assumes "w1 < C" "w2 < C" "w1 + k1 * C = w2 + k2 * C"
  shows "w1 = w2 \<and> k1 = k2"
proof -
  have "(w1 + k1 * C) mod C = (w2 + k2 * C) mod C" using assms(3) by simp
  then have w: "w1 = w2" using assms(1,2) by simp
  then have "k1 * C = k2 * C" using assms(3) by simp
  then show ?thesis using w assms(1) by simp
qed

lemma PutUint64_len: "length (PutUint64 v) = 8" by (simp add: PutUint64_def)

lemma take_1_key: "take (Suc 0) ((replicate 9 (0 :: byte))[0 := x]) = [x]"
proof -
  have "replicate 9 (0 :: byte) = 0 # replicate 8 0"
    using replicate_Suc [of 8 "0 :: byte"] by simp
  then show ?thesis by simp
qed

lemma genKey_shape: "\<exists>b. fst (genKey i g) = b # PutUint64 i \<and> 32 \<le> unat b \<and> unat b \<le> 126"
proof -
  obtain f p where g: "g = (f, p)" by (cases g)
  define v where "v = f p mod 95"
  have "v < 95" by (simp add: v_def)
  then have le: "32 + v \<le> 126" and "32 + v < 256" by linarith+
  then have u: "unat (of_nat (32 + v) :: byte) = 32 + v"
    by (simp only: unat_of_nat) simp
  have "fst (genKey i g) = of_nat (32 + v) # PutUint64 i"
    by (simp add: genKey_def rand_Intn_def g Let_def take_1_key v_def del: of_nat_add)
  then show ?thesis using u le by (intro exI [of _ "of_nat (32 + v)"]) simp
qed

lemma byte_bits:
  fixes a b :: uint64
  assumes "(ucast (drop_bit k a) :: byte) = ucast (drop_bit k b)" and "k \<le> n" and "n < k + 8"
  shows "bit a n = bit b n"
proof -
  have "bit (ucast (drop_bit k a) :: byte) (n - k) = bit (ucast (drop_bit k b) :: byte) (n - k)"
    using assms(1) by simp
  then show ?thesis using assms(2,3) by (auto simp add: bit_simps)
qed

lemma PutUint64_inj: "PutUint64 a = PutUint64 b \<Longrightarrow> a = b"
proof (rule bit_word_eqI)
  fix n assume eq: "PutUint64 a = PutUint64 b" and n: "n < LENGTH(64)"
  have e: "(ucast (drop_bit 56 a) :: byte) = ucast (drop_bit 56 b)"
      "(ucast (drop_bit 48 a) :: byte) = ucast (drop_bit 48 b)"
      "(ucast (drop_bit 40 a) :: byte) = ucast (drop_bit 40 b)"
      "(ucast (drop_bit 32 a) :: byte) = ucast (drop_bit 32 b)"
      "(ucast (drop_bit 24 a) :: byte) = ucast (drop_bit 24 b)"
      "(ucast (drop_bit 16 a) :: byte) = ucast (drop_bit 16 b)"
      "(ucast (drop_bit 8 a) :: byte) = ucast (drop_bit 8 b)"
      "(ucast (drop_bit 0 a) :: byte) = ucast (drop_bit 0 b)"
    using eq by (simp_all add: PutUint64_def)
  consider "n < 8" | "8 \<le> n" "n < 16" | "16 \<le> n" "n < 24" | "24 \<le> n" "n < 32"
    | "32 \<le> n" "n < 40" | "40 \<le> n" "n < 48" | "48 \<le> n" "n < 56" | "56 \<le> n" "n < 64"
    using n by fastforce
  then show "bit a n = bit b n"
  proof cases
    case 1 then show ?thesis using byte_bits [OF e(8), of n] by simp
  next
    case 2 then show ?thesis using byte_bits [OF e(7), of n] by simp
  next
    case 3 then show ?thesis using byte_bits [OF e(6), of n] by simp
  next
    case 4 then show ?thesis using byte_bits [OF e(5), of n] by simp
  next
    case 5 then show ?thesis using byte_bits [OF e(4), of n] by simp
  next
    case 6 then show ?thesis using byte_bits [OF e(3), of n] by simp
  next
    case 7 then show ?thesis using byte_bits [OF e(2), of n] by simp
  next
    case 8 then show ?thesis using byte_bits [OF e(1), of n] by simp
  qed
qed

lemma genKey_inj: "i1 \<noteq> i2 \<Longrightarrow> fst (genKey i1 g1) \<noteq> fst (genKey i2 g2)"
  using genKey_shape [of i1 g1] genKey_shape [of i2 g2] PutUint64_inj [of i1 i2] by auto

lemma genKey_suffix: "drop 1 (fst (genKey i g)) = PutUint64 i"
  using genKey_shape [of i g] by auto

lemma stride_workers:
  assumes "ws \<in> {fst (testSet r c iters d), fst (testDelete r c iters d),
                  fst (testGetSet r c sc iters d)}"
    and "w < length ws"
  shows "ws ! w = strideLoop c (of_nat w) 0 (iters w) \<and> w < unat c"
proof -
  have ws: "ws = (if sint c < 0 then []
                  else map (\<lambda>j. strideLoop c (of_nat j) 0 (iters j)) [0..<nat (sint c)])"
    using assms(1) by (auto simp add: testSet_def testDelete_def testGetSet_def Let_def)
  then have nn: "0 \<le> sint c" using assms(2) by (auto split: if_splits)
  then have "w < nat (sint c)" using ws assms(2) by simp
  then show ?thesis using ws nn by (simp add: nat_sint_unat)
qed

lemma get_workers:
  assumes "w < length (fst (testGet r c oks d))"
  shows "fst (testGet r c oks d) ! w = getLoop c (of_nat w) (of_nat w) 0 (oks w) \<and> w < unat c"
proof -
  have ws: "fst (testGet r c oks d) = (if sint c < 0 then []
              else map (\<lambda>j. getLoop c (of_nat j) (of_nat j) 0 (oks j)) [0..<nat (sint c)])"
    by (simp add: testGet_def Let_def)
  then have nn: "0 \<le> sint c" using assms by (auto split: if_splits)
  then have "w < nat (sint c)" using ws assms by simp
  then show ?thesis using ws nn by (simp add: nat_sint_unat)
qed

lemma stride_distinct:
  assumes ws: "ws \<in> {fst (testSet r c iters d), fst (testDelete r c iters d),
                      fst (testGetSet r c sc iters d)}"
    and w: "w1 < length ws" "w2 < length ws"
    and k: "k1 < length (fst (ws ! w1))" "k2 < length (fst (ws ! w2))"
    and ne: "(w1, k1) \<noteq> (w2, k2)"
    and nowrap: "w1 + k1 * unat c < 2 ^ 64" "w2 + k2 * unat c < 2 ^ 64"
  shows "PutUint64 (fst (ws ! w1) ! k1) \<noteq> PutUint64 (fst (ws ! w2) ! k2)"
proof
  assume eq: "PutUint64 (fst (ws ! w1) ! k1) = PutUint64 (fst (ws ! w2) ! k2)"
  have a: "ws ! w1 = strideLoop c (of_nat w1) 0 (iters w1)" "w1 < unat c"
    using stride_workers [OF ws w(1)] by simp_all
  have b: "ws ! w2 = strideLoop c (of_nat w2) 0 (iters w2)" "w2 < unat c"
    using stride_workers [OF ws w(2)] by simp_all
  have k1: "k1 < iters w1" using k(1) a(1) by (simp add: strideLoop_length)
  have k2: "k2 < iters w2" using k(2) b(1) by (simp add: strideLoop_length)
  have "fst (ws ! w1) ! k1 = fst (ws ! w2) ! k2" using eq by (rule PutUint64_inj)
  then have "(of_nat w1 :: uint64) + of_nat k1 * c = of_nat w2 + of_nat k2 * c"
    using a(1) b(1) k1 k2 by (simp add: strideLoop_index)
  then have "unat ((of_nat w1 :: uint64) + of_nat k1 * c) = unat ((of_nat w2 :: uint64) + of_nat k2 * c)"
    by simp
  then have "w1 + k1 * unat c = w2 + k2 * unat c"
    using nowrap by (simp only: unat_stride)
  then show False using stride_unique [OF a(2) b(2)] ne by simp
qed

lemma get_index_residue:
  assumes w: "w < length (fst (testGet r c oks d))"
    and k: "k < length (fst (fst (testGet r c oks d) ! w))"
    and nowrap: "w + k * unat c < 2 ^ 64"
  shows "unat (fst (fst (testGet r c oks d) ! w) ! k) mod unat c = w"
proof -
  have a: "fst (testGet r c oks d) ! w = getLoop c (of_nat w) (of_nat w) 0 (oks w)" "w < unat c"
    using get_workers [OF w] by simp_all
  have k': "k < length (oks w)" using k a(1) by (simp add: getLoop_length)
  obtain m where m: "m \<le> k"
    "fst (getLoop c (of_nat w) (of_nat w) 0 (oks w)) ! k = of_nat w + of_nat m * c"
    using getLoop_index [OF k', of 0 c "of_nat w" 0] by auto
  have "m * unat c \<le> k * unat c" using m(1) by simp
  then have "w + m * unat c < 2 ^ 64" using nowrap by linarith
  then have "unat (fst (getLoop c (of_nat w) (of_nat w) 0 (oks w)) ! k) = w + m * unat c"
    by (simp only: m(2) unat_stride)
  then show ?thesis using a by simp
qed


text \<open>
  C3 (amended). Keys of distinct indices differ whatever the leading bytes, because the
  eight bytes behind the leading one are the big-endian index. In the phases whose
  workers only advance (set, delete and the readers of the mixed phase), two distinct
  (worker, step) pairs give distinct suffixes as long as the index \<open>w + k * c\<close> has not
  passed \<open>2^64\<close>. In the get phase every index of worker \<open>w\<close> is congruent to \<open>w\<close> modulo
  \<open>c\<close> under the same bound, so two different workers never use the same index; one
  worker does repeat an index after a miss.
\<close>

theorem key_suffixes_distinct:
  "(i1 \<noteq> i2 \<longrightarrow>
      fst (genKey i1 g1) \<noteq> fst (genKey i2 g2)
      \<and> drop 1 (fst (genKey i1 g1)) = PutUint64 i1)
   \<and> (ws \<in> {fst (testSet r c iters d), fst (testDelete r c iters d),
              fst (testGetSet r c sc iters d)}
        \<and> w1 < length ws \<and> w2 < length ws
        \<and> k1 < length (fst (ws ! w1)) \<and> k2 < length (fst (ws ! w2))
        \<and> (w1, k1) \<noteq> (w2, k2)
        \<and> w1 + k1 * unat c < 2 ^ 64 \<and> w2 + k2 * unat c < 2 ^ 64
      \<longrightarrow> PutUint64 (fst (ws ! w1) ! k1) \<noteq> PutUint64 (fst (ws ! w2) ! k2))
   \<and> (gs = fst (testGet r c oks d)
        \<and> w1 < length gs \<and> w2 < length gs \<and> w1 \<noteq> w2
        \<and> k1 < length (fst (gs ! w1)) \<and> k2 < length (fst (gs ! w2))
        \<and> w1 + k1 * unat c < 2 ^ 64 \<and> w2 + k2 * unat c < 2 ^ 64
      \<longrightarrow> unat (fst (gs ! w1) ! k1) mod unat c = w1
          \<and> unat (fst (gs ! w2) ! k2) mod unat c = w2
          \<and> PutUint64 (fst (gs ! w1) ! k1) \<noteq> PutUint64 (fst (gs ! w2) ! k2))"
proof (intro conjI impI)
  assume "i1 \<noteq> i2"
  then show "fst (genKey i1 g1) \<noteq> fst (genKey i2 g2)" by (rule genKey_inj)
next
  show "drop 1 (fst (genKey i1 g1)) = PutUint64 i1" by (rule genKey_suffix)
next
  assume "ws \<in> {fst (testSet r c iters d), fst (testDelete r c iters d),
              fst (testGetSet r c sc iters d)}
        \<and> w1 < length ws \<and> w2 < length ws
        \<and> k1 < length (fst (ws ! w1)) \<and> k2 < length (fst (ws ! w2))
        \<and> (w1, k1) \<noteq> (w2, k2)
        \<and> w1 + k1 * unat c < 2 ^ 64 \<and> w2 + k2 * unat c < 2 ^ 64"
  then show "PutUint64 (fst (ws ! w1) ! k1) \<noteq> PutUint64 (fst (ws ! w2) ! k2)"
    using stride_distinct [of ws r c iters d sc w1 w2 k1 k2] by blast
next
  assume a: "gs = fst (testGet r c oks d)
        \<and> w1 < length gs \<and> w2 < length gs \<and> w1 \<noteq> w2
        \<and> k1 < length (fst (gs ! w1)) \<and> k2 < length (fst (gs ! w2))
        \<and> w1 + k1 * unat c < 2 ^ 64 \<and> w2 + k2 * unat c < 2 ^ 64"
  then show r1: "unat (fst (gs ! w1) ! k1) mod unat c = w1"
    using get_index_residue [of w1 r c oks d k1] by blast
  from a show r2: "unat (fst (gs ! w2) ! k2) mod unat c = w2"
    using get_index_residue [of w2 r c oks d k2] by blast
  from a have "w1 \<noteq> w2" by blast
  then have "fst (gs ! w1) ! k1 \<noteq> fst (gs ! w2) ! k2" using r1 r2 by metis
  then show "PutUint64 (fst (gs ! w1) ! k1) \<noteq> PutUint64 (fst (gs ! w2) ! k2)"
    using PutUint64_inj by blast
qed

text \<open>Small instances of the loops, for the concrete runs below.\<close>

lemma upt_2: "[0..<2] = [0, Suc 0]"
  by (simp add: numeral_2_eq_2 upt_rec)

lemma strideLoop_2: "strideLoop c i count 2 = ([i, i + c], count + 1 + 1)"
  by (simp add: numeral_2_eq_2 Let_def)

text \<open>
  Two workers: keys of the indices 1 and 2, the second write of worker 0 against the
  first of worker 1, and the same two steps in the get phase after misses.
\<close>

theorem key_suffixes_distinct_witness:
  "fst (genKey 1 (\<lambda>j. j, 0)) \<noteq> fst (genKey 2 (\<lambda>j. j, 0))
   \<and> drop 1 (fst (genKey 1 (\<lambda>j. j, 0))) = PutUint64 1
   \<and> PutUint64 (fst (fst (testSet (newRecord ''map/nofsync'') 2 (\<lambda>j. 2) 5000) ! 0) ! 1)
       \<noteq> PutUint64 (fst (fst (testSet (newRecord ''map/nofsync'') 2 (\<lambda>j. 2) 5000) ! 1) ! 0)
   \<and> unat (fst (fst (testGet (newRecord ''map/nofsync'') 2 (\<lambda>j. [False, False]) 5000) ! 0) ! 1)
        mod unat (2 :: int64) = 0
   \<and> unat (fst (fst (testGet (newRecord ''map/nofsync'') 2 (\<lambda>j. [False, False]) 5000) ! 1) ! 0)
        mod unat (2 :: int64) = 1
   \<and> PutUint64 (fst (fst (testGet (newRecord ''map/nofsync'') 2 (\<lambda>j. [False, False]) 5000) ! 0) ! 1)
       \<noteq> PutUint64 (fst (fst (testGet (newRecord ''map/nofsync'') 2 (\<lambda>j. [False, False]) 5000) ! 1) ! 0)"
proof -
  have s: "fst (testSet (newRecord ''map/nofsync'') 2 (\<lambda>j. 2) 5000)
             = [([0, 2], 2), ([1, 3], 2)]"
    by (simp add: testSet_def Let_def upt_2 strideLoop_2)
  have g: "fst (testGet (newRecord ''map/nofsync'') 2 (\<lambda>j. [False, False]) 5000)
             = [([0, 2], 2), ([1, 3], 2)]"
    by (simp add: testGet_def Let_def upt_2)
  show ?thesis
    using key_suffixes_distinct [of 1 2 "(\<lambda>j. j, 0)" "(\<lambda>j. j, 0)"
        "fst (testSet (newRecord ''map/nofsync'') 2 (\<lambda>j. 2) 5000)"
        "newRecord ''map/nofsync''" 2 "\<lambda>j. 2" 5000 "\<lambda>k. 0" 0 1 1 0
        "fst (testGet (newRecord ''map/nofsync'') 2 (\<lambda>j. [False, False]) 5000)"
        "\<lambda>j. [False, False]"]
    by (simp add: s g)
qed

text \<open>
  In the get phase worker 0 of 4, missing three times, asks for the indices 0, 4, 4: its
  steps 1 and 2 are distinct (worker, step) pairs with the same suffix.
\<close>

theorem get_repeats_an_index:
  "fst (getLoop 4 0 0 0 [False, False, False]) = [0, 4, 4]
   \<and> PutUint64 (fst (getLoop 4 0 0 0 [False, False, False]) ! 1)
     = PutUint64 (fst (getLoop 4 0 0 0 [False, False, False]) ! 2)"
  by (simp add: Let_def)

text \<open>
  C6 (amended). In the point-get phase worker \<open>j\<close> makes one attempt per answer of the
  store and counts each of them once. Its first attempt uses the index \<open>j\<close>, its
  starting id. After a miss the next attempt uses \<open>j + c\<close>, the index one stride behind
  the starting id, which is never the starting id itself; after a hit it uses the
  index of the attempt before plus \<open>c\<close>. The sums are those of \<^verbatim>\<open>uint64\<close>.
\<close>

theorem get_worker_after_miss:
  assumes "j < length (fst (testGet r c oks d))"
  shows "snd (fst (testGet r c oks d) ! j) = of_nat (length (oks j))
     \<and> length (fst (fst (testGet r c oks d) ! j)) = length (oks j)
     \<and> (oks j \<noteq> [] \<longrightarrow> fst (fst (testGet r c oks d) ! j) ! 0 = of_nat j)
     \<and> (\<forall>k. Suc k < length (oks j) \<and> \<not> oks j ! k
           \<longrightarrow> fst (fst (testGet r c oks d) ! j) ! Suc k = of_nat j + c
               \<and> fst (fst (testGet r c oks d) ! j) ! Suc k \<noteq> of_nat j)
     \<and> (\<forall>k. Suc k < length (oks j) \<and> oks j ! k
           \<longrightarrow> fst (fst (testGet r c oks d) ! j) ! Suc k
                 = fst (fst (testGet r c oks d) ! j) ! k + c)"
proof -
  have w: "fst (testGet r c oks d) ! j = getLoop c (of_nat j) (of_nat j) 0 (oks j)"
    and j: "j < unat c"
    using get_workers [OF assms] by simp_all
  have "unat c \<noteq> 0" using j by simp
  then have "c \<noteq> 0" by (metis unat_0)
  then have ne: "(of_nat j :: uint64) + c \<noteq> of_nat j" by simp
  show ?thesis
    using ne by (simp add: w getLoop_count getLoop_length getLoop_first getLoop_next)
qed

text \<open>
  Worker 1 of 2, a miss and then two hits: three attempts, at the indices 1, 3 and 5.
\<close>

theorem get_worker_after_miss_witness:
  "snd (fst (testGet (newRecord ''map/nofsync'') 2 (\<lambda>j. [False, True, True]) 5000) ! 1) = 3
   \<and> length (fst (fst (testGet (newRecord ''map/nofsync'') 2 (\<lambda>j. [False, True, True]) 5000) ! 1)) = 3
   \<and> fst (fst (testGet (newRecord ''map/nofsync'') 2 (\<lambda>j. [False, True, True]) 5000) ! 1) ! 0 = 1
   \<and> fst (fst (testGet (newRecord ''map/nofsync'') 2 (\<lambda>j. [False, True, True]) 5000) ! 1) ! 1 = 3
   \<and> fst (fst (testGet (newRecord ''map/nofsync'') 2 (\<lambda>j. [False, True, True]) 5000) ! 1) ! 1 \<noteq> 1
   \<and> fst (fst (testGet (newRecord ''map/nofsync'') 2 (\<lambda>j. [False, True, True]) 5000) ! 1) ! 2 = 5"
proof -
  have g: "fst (testGet (newRecord ''map/nofsync'') 2 (\<lambda>j. [False, True, True]) 5000)
             = [([0, 2, 4], 3), ([1, 3, 5], 3)]"
    by (simp add: testGet_def Let_def upt_2)
  show ?thesis
    using get_worker_after_miss
      [of 1 "newRecord ''map/nofsync''" 2 "\<lambda>j. [False, True, True]" 5000]
    by (simp add: g)
qed

text \<open>
  Worker 1 of 4 misses at its first attempt: its next attempt uses the index 5, not its
  starting id 1.
\<close>

theorem get_after_miss_is_not_start:
  "getLoop 4 1 1 0 [False, True] = ([1, 5], 2)
   \<and> fst (getLoop 4 1 1 0 [False, True]) ! 1 \<noteq> 1"
  by (simp add: Let_def)

section \<open>Bulk load: pages and keys\<close>

lemma rand_Read_length: "length (fst (rand_Read k g)) = k"
  by (cases g) (simp add: rand_Read_def)

lemma genKey_length: "length (fst (genKey i g)) = 9"
  using genKey_shape [of i g] by (auto simp add: PutUint64_len)

lemma genPage_lengths:
  "length (fst (genPage n x vsize g)) = n \<and> length (fst (snd (genPage n x vsize g))) = n"
  by (induction n arbitrary: g) (simp_all add: Let_def split_beta)

lemma genPage_keys: "list_all (\<lambda>k. length k = 9) (fst (genPage n x vsize g))"
  by (induction n arbitrary: g) (simp_all add: Let_def split_beta genKey_length)

lemma genPage_vals: "list_all (\<lambda>v. length v = vsize) (fst (snd (genPage n x vsize g)))"
  by (induction n arbitrary: g) (simp_all add: Let_def split_beta)

lemma forced_byte: "32 \<le> unat (of_nat (32 + v mod 95) :: byte) \<and> unat (of_nat (32 + v mod 95) :: byte) \<le> 126"
proof -
  have "v mod 95 < 95" by simp
  then have le: "32 + v mod 95 \<le> 126" and "32 + v mod 95 < 256" by linarith+
  then have u: "unat (of_nat (32 + v mod 95) :: byte) = 32 + v mod 95"
    by (simp only: unat_of_nat) simp
  show ?thesis using le by (simp only: u) simp
qed

lemma fillPage_step:
  "\<exists>key2 val1 g'.
     fillPage ((key, val) # kvs) g =
       (key2 # fst (fillPage kvs g'), val1 # fst (snd (fillPage kvs g')),
        snd (snd (fillPage kvs g')))
     \<and> length key2 = length key \<and> length val1 = length val
     \<and> (key \<noteq> [] \<longrightarrow> 32 \<le> unat (key2 ! 0) \<and> unat (key2 ! 0) \<le> 126)"
proof -
  define g2 where "g2 = snd (rand_Read (length val) (snd (rand_Read (length key) g)))"
  obtain f p where fp: "g2 = (f, p)" by (cases g2)
  define key1 where "key1 = fst (rand_Read (length key) g)"
  define key2 where "key2 = key1[0 := of_nat (32 + f p mod 95) :: byte]"
  define val1 where "val1 = fst (rand_Read (length val) (snd (rand_Read (length key) g)))"
  have k1: "length key1 = length key" by (simp add: key1_def rand_Read_length)
  have eq: "fillPage ((key, val) # kvs) g =
       (key2 # fst (fillPage kvs (f, Suc p)), val1 # fst (snd (fillPage kvs (f, Suc p))),
        snd (snd (fillPage kvs (f, Suc p))))"
    using fp
    by (simp add: Let_def split_beta g2_def key1_def key2_def val1_def rand_Intn_def
        del: of_nat_add)
  have k2: "length key2 = length key" by (simp add: key2_def k1)
  have v1: "length val1 = length val" by (simp add: val1_def rand_Read_length)
  have pr: "key \<noteq> [] \<longrightarrow> 32 \<le> unat (key2 ! 0) \<and> unat (key2 ! 0) \<le> 126"
    using forced_byte [of "f p"] k1 by (simp add: key2_def del: of_nat_add)
  show ?thesis
    using eq k2 v1 pr by blast
qed

lemma fillPage_lengths:
  "length (fst (fillPage kvs g)) = length kvs \<and> length (fst (snd (fillPage kvs g))) = length kvs"
proof (induction kvs arbitrary: g)
  case Nil
  then show ?case by simp
next
  case (Cons kv kvs)
  obtain key val where kv: "kv = (key, val)" by (cases kv)
  show ?case using fillPage_step [of key val kvs g] Cons.IH by (auto simp add: kv)
qed

lemma fillPage_keys:
  "list_all (\<lambda>kv. length (fst kv) = 9) kvs \<Longrightarrow>
     list_all (\<lambda>k. length k = 9 \<and> 32 \<le> unat (k ! 0) \<and> unat (k ! 0) \<le> 126)
       (fst (fillPage kvs g))"
proof (induction kvs arbitrary: g)
  case Nil
  then show ?case by simp
next
  case (Cons kv kvs)
  obtain key val where kv: "kv = (key, val)" by (cases kv)
  have len: "length key = 9" using Cons.prems kv by simp
  then have ne: "key \<noteq> []" by auto
  have "list_all (\<lambda>kv. length (fst kv) = 9) kvs" using Cons.prems by simp
  from Cons.IH [OF this] show ?case
    using fillPage_step [of key val kvs g] len ne by (auto simp add: kv)
qed

lemma fillPage_vals:
  "list_all (\<lambda>kv. length (snd kv) = n) kvs \<Longrightarrow>
     list_all (\<lambda>v. length v = n) (fst (snd (fillPage kvs g)))"
proof (induction kvs arbitrary: g)
  case Nil
  then show ?case by simp
next
  case (Cons kv kvs)
  obtain key val where kv: "kv = (key, val)" by (cases kv)
  have len: "length val = n" using Cons.prems kv by simp
  have "list_all (\<lambda>kv. length (snd kv) = n) kvs" using Cons.prems by simp
  from Cons.IH [OF this] show ?case
    using fillPage_step [of key val kvs g] len by (auto simp add: kv)
qed

lemma page_size:
  assumes "int i * 1000 + 1000 < 2 ^ 63"
  shows "sint ((of_nat i :: int64) * 1000) < sint ((of_nat i :: int64) * 1000 + 1000)"
proof -
  have a: "(of_nat i :: int64) * 1000 = word_of_int (int i * 1000)" by simp
  have b: "(of_nat i :: int64) * 1000 + 1000 = word_of_int (int i * 1000 + 1000)" by simp
  have "sint (word_of_int (int i * 1000) :: int64) = int i * 1000"
    using assms by (intro sint_word_of_int_64) simp_all
  moreover have "sint (word_of_int (int i * 1000 + 1000) :: int64) = int i * 1000 + 1000"
    using assms by (intro sint_word_of_int_64) simp_all
  ultimately show ?thesis by (simp only: a b) simp
qed


lemma page_well_formed:
  assumes gen_def: "gen = genPage n x vsize g"
    and fill_def: "fill = fillPage (zip (fst gen) (fst (snd gen))) (snd (snd gen))"
  shows "length (fst fill) = n \<and> length (fst (snd fill)) = n
     \<and> list_all (\<lambda>k. length k = 9 \<and> 32 \<le> unat (k ! 0) \<and> unat (k ! 0) \<le> 126) (fst fill)
     \<and> list_all (\<lambda>v. length v = vsize) (fst (snd fill))"
proof -
  have l: "length (fst gen) = n" "length (fst (snd gen)) = n"
    using genPage_lengths [of n x vsize g] by (simp_all add: gen_def)
  have k: "list_all (\<lambda>kv. length (fst kv) = 9) (zip (fst gen) (fst (snd gen)))"
    using genPage_keys [of n x vsize g] l
    by (auto simp add: gen_def list_all_iff dest: set_zip_leftD)
  have v: "list_all (\<lambda>kv. length (snd kv) = vsize) (zip (fst gen) (fst (snd gen)))"
    using genPage_vals [of vsize n x g] l
    by (auto simp add: gen_def list_all_iff dest: set_zip_rightD)
  show ?thesis
    using fillPage_lengths [of "zip (fst gen) (fst (snd gen))" "snd (snd gen)"]
      fillPage_keys [OF k, of "snd (snd gen)"] fillPage_vals [OF v, of "snd (snd gen)"] l
    by (simp add: fill_def)
qed

lemma bulkLoop_step:
  assumes i: "int i * 1000 + 1000 < 2 ^ 63" and vs: "0 \<le> vsize" and ok: "\<not> perr i"
  shows "\<exists>keyList valList g2.
     bulkLoop perr vsize (i # pages) g tot =
       ((keyList, valList) # fst (bulkLoop perr vsize pages g2 (tot + 1000)),
        snd (bulkLoop perr vsize pages g2 (tot + 1000)))
     \<and> length keyList = 1000 \<and> length valList = 1000
     \<and> list_all (\<lambda>k. length k = 9 \<and> 32 \<le> unat (k ! 0) \<and> unat (k ! 0) \<le> 126) keyList
     \<and> list_all (\<lambda>v. length v = nat vsize) valList"
proof -
  define gen where "gen = genPage 1000 1000 (nat vsize) g"
  define fill where "fill = fillPage (zip (fst gen) (fst (snd gen))) (snd (snd gen))"
  have wf: "length (fst fill) = 1000 \<and> length (fst (snd fill)) = 1000
     \<and> list_all (\<lambda>k. length k = 9 \<and> 32 \<le> unat (k ! 0) \<and> unat (k ! 0) \<le> 126) (fst fill)
     \<and> list_all (\<lambda>v. length v = nat vsize) (fst (snd fill))"
    using page_well_formed [OF gen_def fill_def] .
  have lt: "sint ((of_nat i :: int64) * 1000) < sint ((of_nat i :: int64) * 1000 + 1000)"
    using i by (rule page_size)
  have "bulkLoop perr vsize (i # pages) g tot =
       ((fst fill, fst (snd fill)) # fst (bulkLoop perr vsize pages (snd (snd fill)) (tot + 1000)),
        snd (bulkLoop perr vsize pages (snd (snd fill)) (tot + 1000)))"
    using lt vs ok wf
    by (simp add: Let_def split_beta gen_def [symmetric] fill_def [symmetric])
  then show ?thesis using wf by blast
qed

lemma bulkLoop_ok:
  assumes vs: "0 \<le> vsize"
    and pages: "list_all (\<lambda>i. int i * 1000 + 1000 < 2 ^ 63 \<and> \<not> perr i) pages"
  shows "length (fst (bulkLoop perr vsize pages g tot)) = length pages
     \<and> list_all (\<lambda>call. length (fst call) = 1000 \<and> length (snd call) = 1000
           \<and> list_all (\<lambda>k. length k = 9 \<and> 32 \<le> unat (k ! 0) \<and> unat (k ! 0) \<le> 126) (fst call)
           \<and> list_all (\<lambda>v. length v = nat vsize) (snd call))
         (fst (bulkLoop perr vsize pages g tot))
     \<and> (\<exists>res. snd (bulkLoop perr vsize pages g tot) = Inr res)"
  using pages
proof (induction pages arbitrary: g tot)
  case Nil
  then show ?case by simp
next
  case (Cons i pages)
  have i: "int i * 1000 + 1000 < 2 ^ 63" and ok: "\<not> perr i"
    and rest: "list_all (\<lambda>i. int i * 1000 + 1000 < 2 ^ 63 \<and> \<not> perr i) pages"
    using Cons.prems by simp_all
  obtain keyList valList g2 where step:
    "bulkLoop perr vsize (i # pages) g tot =
       ((keyList, valList) # fst (bulkLoop perr vsize pages g2 (tot + 1000)),
        snd (bulkLoop perr vsize pages g2 (tot + 1000)))"
    "length keyList = 1000" "length valList = 1000"
    "list_all (\<lambda>k. length k = 9 \<and> 32 \<le> unat (k ! 0) \<and> unat (k ! 0) \<le> 126) keyList"
    "list_all (\<lambda>v. length v = nat vsize) valList"
    using bulkLoop_step [of i vsize perr pages g tot] i vs ok by blast
  show ?case using Cons.IH [OF rest, of g2 "tot + 1000"] step by simp
qed

lemma smod_nonneg: "0 \<le> a \<Longrightarrow> 0 < b \<Longrightarrow> (a :: int) smod b = a mod b"
  by (cases "a = 0") (simp_all add: signed_modulo_int_def)

lemma rem64_1000:
  assumes "0 \<le> sint count"
  shows "rem64 count 1000 = 0 \<longleftrightarrow> sint count mod 1000 = 0"
proof -
  have r: "rem64 count 1000 = word_of_int (sint count mod 1000)"
    using assms by (simp add: rem64_def smod_nonneg)
  have "0 \<le> sint count mod 1000" "sint count mod 1000 < 1000" by simp_all
  then have "sint (word_of_int (sint count mod 1000) :: int64) = sint count mod 1000"
    by (intro sint_word_of_int_64) simp_all
  then show ?thesis unfolding r by (metis sint_0 word_of_int_0)
qed

lemma pageCount_nonneg:
  assumes "0 \<le> sint count"
  shows "sint (pageCount count) =
           (if sint count mod 1000 = 0 then sint count div 1000 else sint count div 1000 + 1)"
proof -
  have q: "sint (quo64 count 1000) = sint count div 1000"
    using assms by (simp add: sint_quo64)
  have "sint count div 1000 \<le> sint count" using assms by simp
  have "sint count < 2 ^ 63" by (rule sint_range_64)
  then have "sint count div 1000 + 1 < 2 ^ 63" by simp
  moreover have "0 \<le> sint count div 1000" using assms by simp
  ultimately have "sint (quo64 count 1000 + 1) = sint count div 1000 + 1"
    using q by (simp add: sint_word_add signed_take_bit_int_eq_self)
  then show ?thesis using q rem64_1000 [OF assms] by (simp add: pageCount_def)
qed

lemma pages_in_range:
  assumes c0: "0 \<le> sint count" and hi: "sint count + 1000 < 2 ^ 63"
    and i: "i < nat (sint (pageCount count))"
  shows "int i * 1000 + 1000 < 2 ^ 63"
proof -
  have "int i < sint count div 1000 + 1"
    using i pageCount_nonneg [OF c0] by (simp split: if_splits)
  then have "int i * 1000 \<le> sint count" using c0 by simp
  then show ?thesis using hi by simp
qed

lemma testBatchWriteFixCount_ok:
  assumes c0: "0 \<le> sint count" and hi: "sint count + 1000 < 2 ^ 63"
    and vs: "0 \<le> vsize"
    and ok: "\<forall>i. i < nat (sint (pageCount count)) \<longrightarrow> \<not> perr i"
  shows "length (fst (testBatchWriteFixCount r perr vsize g cost count))
           = nat (sint (pageCount count))
     \<and> list_all (\<lambda>call. length (fst call) = 1000 \<and> length (snd call) = 1000
           \<and> list_all (\<lambda>k. length k = 9 \<and> 32 \<le> unat (k ! 0) \<and> unat (k ! 0) \<le> 126) (fst call)
           \<and> list_all (\<lambda>v. length v = nat vsize) (snd call))
         (fst (testBatchWriteFixCount r perr vsize g cost count))
     \<and> snd (testBatchWriteFixCount r perr vsize g cost count)
           = Inr (add_value cost (add_header ''batch write cost(s)'' r))"
proof -
  have "list_all (\<lambda>i. int i * 1000 + 1000 < 2 ^ 63 \<and> \<not> perr i)
          [0..<nat (sint (pageCount count))]"
    using pages_in_range [OF c0 hi] ok by (simp add: list_all_iff)
  from bulkLoop_ok [OF vs this, of g 0] show ?thesis
    by (auto simp add: testBatchWriteFixCount_def split_beta)
qed

lemma entries_written:
  "list_all (\<lambda>call. length (fst call) = 1000 \<and> P call) calls \<Longrightarrow>
     sum_list (map (\<lambda>call. length (fst call)) calls) = 1000 * length calls"
  by (induction calls) simp_all

lemma ceiling_1000:
  assumes "(a :: int) mod 1000 \<noteq> 0"
  shows "\<lceil>real_of_int a / 1000\<rceil> = a div 1000 + 1"
proof -
  have "\<lceil>real_of_int a / real_of_int 1000\<rceil> = - (- a div 1000)"
    by (rule ceiling_divide_eq_div)
  moreover have "- a div 1000 = - (a div 1000) - 1"
    using assms by (simp add: zdiv_zminus1_eq_if)
  ultimately show ?thesis by simp
qed

lemma below_next_page: "(a :: int) < (a div 1000 + 1) * 1000"
proof -
  define q where "q = a div 1000"
  define m where "m = a mod 1000"
  have "a = q * 1000 + m" by (simp add: q_def m_def)
  moreover have "m < 1000" by (simp add: m_def)
  ultimately have "a < q * 1000 + 1000" by linarith
  then show ?thesis by (simp add: q_def algebra_simps)
qed

text \<open>
  The pages are written one after another: when the store refuses a page, the driver
  panics and no later page is issued.
\<close>

lemma bulkLoop_stops_at_error:
  assumes i: "int i * 1000 + 1000 < 2 ^ 63" and vs: "0 \<le> vsize" and err: "perr i"
  shows "length (fst (bulkLoop perr vsize (i # pages) g tot)) = 1
     \<and> snd (bulkLoop perr vsize (i # pages) g tot) = Inl PSetFailed"
proof -
  have lt: "sint ((of_nat i :: int64) * 1000) < sint ((of_nat i :: int64) * 1000 + 1000)"
    using i by (rule page_size)
  show ?thesis using lt vs err by (simp add: Let_def split_beta)
qed

text \<open>
  A negative count is not excluded by the flag. The truncating division makes
  \<^verbatim>\<open>-set -500\<close> one page of 1000 entries.
\<close>

lemma pageCount_negative: "sint (pageCount (- 500)) = 1"
  by (simp add: pageCount_def rem64_def quo64_def signed_modulo_int_def signed_divide_int_def)

text \<open>
  C2. For a requested count of 4000 the bulk load issues exactly four \<^verbatim>\<open>PSet\<close> calls,
  one after another, each with 1000 keys and 1000 values; every key has nine bytes and
  a leading byte between 32 and 126; and the phase returns with its column appended.
  The run is one in which the store accepts the four pages and the value size is not
  negative (the driver panics otherwise).
\<close>

theorem bulk_load_4000:
  assumes "0 \<le> vsize" and "\<forall>i. i < 4 \<longrightarrow> \<not> perr i"
  shows "length (fst (testBatchWriteFixCount r perr vsize g cost 4000)) = 4
     \<and> list_all (\<lambda>call. length (fst call) = 1000 \<and> length (snd call) = 1000
           \<and> list_all (\<lambda>k. length k = 9 \<and> 32 \<le> unat (k ! 0) \<and> unat (k ! 0) \<le> 126) (fst call)
           \<and> list_all (\<lambda>v. length v = nat vsize) (snd call))
         (fst (testBatchWriteFixCount r perr vsize g cost 4000))
     \<and> snd (testBatchWriteFixCount r perr vsize g cost 4000)
           = Inr (add_value cost (add_header ''batch write cost(s)'' r))"
proof -
  have s: "sint (4000 :: int64) = 4000" by simp
  have p: "sint (pageCount 4000) = 4" using pageCount_nonneg [of 4000] by (simp only: s) simp
  have "0 \<le> sint (4000 :: int64)" "sint (4000 :: int64) + 1000 < 2 ^ 63"
    by (simp_all only: s) simp_all
  moreover have "\<forall>i. i < nat (sint (pageCount 4000)) \<longrightarrow> \<not> perr i"
    using assms(2) by (simp only: p) simp
  ultimately show ?thesis
    using testBatchWriteFixCount_ok [of 4000 vsize perr r g cost] assms(1)
    by (simp only: p) simp
qed

text \<open>Values of 256 bytes and a store that accepts every page.\<close>

theorem bulk_load_4000_witness:
  "length (fst (testBatchWriteFixCount (newRecord ''map/nofsync'') (\<lambda>i. False) 256
             (\<lambda>j. j, 0) 7 4000)) = 4
   \<and> list_all (\<lambda>call. length (fst call) = 1000 \<and> length (snd call) = 1000
         \<and> list_all (\<lambda>k. length k = 9 \<and> 32 \<le> unat (k ! 0) \<and> unat (k ! 0) \<le> 126) (fst call)
         \<and> list_all (\<lambda>v. length v = 256) (snd call))
       (fst (testBatchWriteFixCount (newRecord ''map/nofsync'') (\<lambda>i. False) 256
             (\<lambda>j. j, 0) 7 4000))
   \<and> snd (testBatchWriteFixCount (newRecord ''map/nofsync'') (\<lambda>i. False) 256
             (\<lambda>j. j, 0) 7 4000)
       = Inr (add_value 7 (add_header ''batch write cost(s)'' (newRecord ''map/nofsync'')))"
  using bulk_load_4000 [of 256 "\<lambda>i. False" "newRecord ''map/nofsync''" "(\<lambda>j. j, 0)" 7]
  by simp

text \<open>
  C10 (amended). For a positive count that is not a multiple of 1000 the bulk load
  issues \<open>count div 1000 + 1\<close> \<^verbatim>\<open>PSet\<close> calls of 1000 keys and 1000 values each, so the
  number of entries written is the ceiling of \<open>count / 1000\<close> times 1000, which is more
  than the count. The count leaves room for one more page in 64 bits, the store accepts
  the pages and the value size is not negative. The flag also takes negative counts,
  for which the ceiling is not what is written.
\<close>

theorem bulk_load_partial_page:
  assumes c0: "0 < sint count" and part: "sint count mod 1000 \<noteq> 0"
    and hi: "sint count + 1000 < 2 ^ 63" and vs: "0 \<le> vsize"
    and ok: "\<forall>i. int i \<le> sint count div 1000 \<longrightarrow> \<not> perr i"
  shows "int (length (fst (testBatchWriteFixCount r perr vsize g cost count)))
           = sint count div 1000 + 1
     \<and> list_all (\<lambda>call. length (fst call) = 1000 \<and> length (snd call) = 1000)
         (fst (testBatchWriteFixCount r perr vsize g cost count))
     \<and> int (sum_list (map (\<lambda>call. length (fst call))
              (fst (testBatchWriteFixCount r perr vsize g cost count))))
           = \<lceil>real_of_int (sint count) / 1000\<rceil> * 1000
     \<and> sint count < int (sum_list (map (\<lambda>call. length (fst call))
              (fst (testBatchWriteFixCount r perr vsize g cost count))))"
proof -
  define calls where "calls = fst (testBatchWriteFixCount r perr vsize g cost count)"
  have c0': "0 \<le> sint count" using c0 by simp
  have p: "sint (pageCount count) = sint count div 1000 + 1"
    using pageCount_nonneg [OF c0'] part by simp
  have nn: "0 \<le> sint count div 1000" using c0' by simp
  have ok': "\<forall>i. i < nat (sint (pageCount count)) \<longrightarrow> \<not> perr i"
    using ok p nn by auto
  note wf = testBatchWriteFixCount_ok [OF c0' hi vs ok', of r g cost]
  have len: "int (length calls) = sint count div 1000 + 1"
    using wf p nn by (simp add: calls_def)
  have all: "list_all (\<lambda>call. length (fst call) = 1000 \<and> length (snd call) = 1000) calls"
    using wf by (simp add: calls_def list_all_iff)
  have sum: "sum_list (map (\<lambda>call. length (fst call)) calls) = 1000 * length calls"
    using all by (rule entries_written)
  have tot: "int (sum_list (map (\<lambda>call. length (fst call)) calls))
               = (sint count div 1000 + 1) * 1000"
    using len by (simp add: sum)
  show ?thesis
    using len all tot ceiling_1000 [OF part] below_next_page [of "sint count"]
    by (simp add: calls_def)
qed

text \<open>A count of 4500: five pages, 5000 entries.\<close>

theorem bulk_load_partial_page_witness:
  "int (length (fst (testBatchWriteFixCount (newRecord ''map/nofsync'') (\<lambda>i. False) 256
             (\<lambda>j. j, 0) 7 4500))) = 5
   \<and> list_all (\<lambda>call. length (fst call) = 1000 \<and> length (snd call) = 1000)
       (fst (testBatchWriteFixCount (newRecord ''map/nofsync'') (\<lambda>i. False) 256
             (\<lambda>j. j, 0) 7 4500))
   \<and> int (sum_list (map (\<lambda>call. length (fst call))
            (fst (testBatchWriteFixCount (newRecord ''map/nofsync'') (\<lambda>i. False) 256
               (\<lambda>j. j, 0) 7 4500)))) = 5000"
proof -
  have s: "sint (4500 :: int64) = 4500" by simp
  have c: "\<lceil>real_of_int 4500 / 1000\<rceil> = 5" by (simp add: ceiling_1000)
  show ?thesis
    using bulk_load_partial_page [of 4500 256 "\<lambda>i. False" "newRecord ''map/nofsync''"
        "(\<lambda>j. j, 0)" 7]
    unfolding s c by simp
qed

text \<open>
  The count \<open>-500\<close> is not a multiple of 1000. Go's remainder of it is \<open>-500\<close> and its
  quotient is 0, so the bulk load writes one page of 1000 keys and 1000 values, where
  the ceiling of \<open>-500 / 1000\<close> times 1000 is 0.
\<close>

theorem negative_count_writes_a_page:
  "length (fst (testBatchWriteFixCount (newRecord ''map/nofsync'') ((!) [False]) 256 (id, 0) 7
             (- 500))) = 1
   \<and> length (fst (hd (fst (testBatchWriteFixCount (newRecord ''map/nofsync'') ((!) [False]) 256
             (id, 0) 7 (- 500))))) = 1000
   \<and> length (snd (hd (fst (testBatchWriteFixCount (newRecord ''map/nofsync'') ((!) [False]) 256
             (id, 0) 7 (- 500))))) = 1000
   \<and> sint (- 500 :: int64) mod 1000 \<noteq> 0
   \<and> \<lceil>real_of_int (sint (- 500 :: int64)) / 1000\<rceil> * 1000 = 0
   \<and> int (length (fst (hd (fst (testBatchWriteFixCount (newRecord ''map/nofsync'') ((!) [False])
             256 (id, 0) 7 (- 500))))))
       \<noteq> \<lceil>real_of_int (sint (- 500 :: int64)) / 1000\<rceil> * 1000"
proof -
  have pages: "[0..<nat (sint (pageCount (- 500)))] = [0]"
    by (simp add: pageCount_negative)
  obtain keyList valList g2 where step:
    "bulkLoop ((!) [False]) 256 [0] (id, 0) 0 =
       ((keyList, valList) # fst (bulkLoop ((!) [False]) 256 [] g2 (0 + 1000)),
        snd (bulkLoop ((!) [False]) 256 [] g2 (0 + 1000)))"
    "length keyList = 1000" "length valList = 1000"
    using bulkLoop_step [of 0 256 "(!) [False]" "[]" "(id, 0)" 0] by auto
  have calls: "fst (testBatchWriteFixCount (newRecord ''map/nofsync'') ((!) [False]) 256 (id, 0) 7
             (- 500)) = [(keyList, valList)]"
    using step(1)
    by (simp add: testBatchWriteFixCount_def pages split_beta del: bulkLoop.simps(2))
  have s: "sint (- 500 :: int64) = - 500" by simp
  have "\<lceil>real_of_int (- 500) / real_of_int 1000\<rceil> = - (- (- 500) div 1000)"
    by (rule ceiling_divide_eq_div)
  then have c: "\<lceil>real_of_int (- 500) / 1000\<rceil> = 0" by simp
  show ?thesis using c unfolding calls s by (simp add: step(2,3))
qed

section \<open>The record through a run\<close>

lemma extend_simps [simp]:
  "Headers (extend hs vs r) = Headers r @ hs" "Values (extend hs vs r) = Values r @ vs"
  "Name (extend hs vs r) = Name r"
  by (simp_all add: extend_def)

lemma extend_extend: "extend hs' vs' (extend hs vs r) = extend (hs @ hs') (vs @ vs') r"
  by (simp add: extend_def)

lemma extend_Nil [simp]: "extend [] [] r = r"
  by (simp add: extend_def)

lemma add_as_extend: "add_value v (add_header h r) = extend [h] [v] r"
  by (simp add: extend_def add_value_def add_header_def)

lemma appendsI:
  assumes "\<And>r. f r = (case res of Inl p \<Rightarrow> Inl p | Inr vs \<Rightarrow> Inr (extend hs vs r))"
    and "\<And>vs. res = Inr vs \<Longrightarrow> length vs = length hs"
  shows "appends hs f"
  unfolding appends_def using assms by (intro exI [of _ res]) (auto split: sum.splits)

lemma appends_bulk:
  "appends [''batch write cost(s)'']
     (\<lambda>r. snd (testBatchWriteFixCount r perr vsize g cost count))"
proof (rule appendsI)
  define res :: "panic + int64 list" where
    "res = (case snd (bulkLoop perr vsize [0..<nat (sint (pageCount count))] g 0) of
              Inl p \<Rightarrow> Inl p | Inr x \<Rightarrow> Inr [cost])"
  show "snd (testBatchWriteFixCount r perr vsize g cost count)
          = (case res of Inl p \<Rightarrow> Inl p | Inr vs \<Rightarrow> Inr (extend [''batch write cost(s)''] vs r))" for r
    by (simp add: testBatchWriteFixCount_def split_beta res_def add_as_extend split: sum.splits)
  show "length vs = length [''batch write cost(s)'']" if "res = Inr vs" for vs
    using that by (auto simp add: res_def split: sum.splits)
qed

lemma appends_mem:
  "appends [''MemUsage(MiB)'', ''HeapInuse(MiB)''] (\<lambda>r. Inr (showMemUsage r alloc heapInuse))"
proof (rule appendsI)
  show "Inr (showMemUsage r alloc heapInuse)
     = (case Inr [alloc div 1024 div 1024, heapInuse div 1024 div 1024] of
          Inl p \<Rightarrow> Inl p
        | Inr vs \<Rightarrow> Inr (extend [''MemUsage(MiB)'', ''HeapInuse(MiB)''] vs r))" for r
    by (simp add: showMemUsage_def add_as_extend extend_extend)
  show "length vs = length [''MemUsage(MiB)'', ''HeapInuse(MiB)'']"
    if "(Inr [alloc div 1024 div 1024, heapInuse div 1024 div 1024] :: panic + int64 list) = Inr vs" for vs
    using that by auto
qed

lemma appends_disk:
  "appends (if st = StatNotExist then [] else [''DiskUsage(MiB)''])
     (\<lambda>r. showDiskUsage r st walk)"
proof (cases st)
  case StatNotExist
  show ?thesis
    by (rule appendsI [where res = "Inr []"]) (simp_all add: StatNotExist showDiskUsage_def)
next
  case StatFailed
  show ?thesis
    by (rule appendsI [where res = "Inl NilDereference"]) (simp_all add: StatFailed showDiskUsage_def)
next
  case (StatInfo isDir sz)
  define res :: "panic + int64 list" where
    "res = (case (if isDir then GetDirSize walk 0 else Inr sz) of
              Inl p \<Rightarrow> Inl p | Inr fileSize \<Rightarrow> Inr [quo64 (quo64 fileSize 1024) 1024])"
  show ?thesis
  proof (rule appendsI [where res = res])
    show "showDiskUsage r st walk
      = (case res of Inl p \<Rightarrow> Inl p
         | Inr vs \<Rightarrow> Inr (extend (if st = StatNotExist then [] else [''DiskUsage(MiB)'']) vs r))" for r
      by (simp add: StatInfo showDiskUsage_def res_def add_as_extend split: sum.splits)
    show "length vs = length (if st = StatNotExist then [] else [''DiskUsage(MiB)''])"
      if "res = Inr vs" for vs
      using that by (auto simp add: res_def StatInfo split: sum.splits if_splits)
  qed
qed

lemma report_columns:
  "\<exists>res. (\<forall>r. (case report h r counts c d of Inl p \<Rightarrow> Inl p | Inr (l, r') \<Rightarrow> Inr r')
              = (case res of Inl p \<Rightarrow> Inl p | Inr vs \<Rightarrow> Inr (extend [h] vs r)))
      \<and> (case res of Inl p \<Rightarrow> True | Inr vs \<Rightarrow> length vs = length [h])"
proof -
  define res :: "panic + int64 list" where
    "res = (case go_div (sum_counts counts * 1000000) (quo64 d 1000) of
              Inl p \<Rightarrow> Inl p
            | Inr rate \<Rightarrow> (case go_div d (sum_counts counts * c) of
                             Inl p \<Rightarrow> Inl p | Inr mean \<Rightarrow> Inr [rate]))"
  have "(case report h r counts c d of Inl p \<Rightarrow> Inl p | Inr (l, r') \<Rightarrow> Inr r')
          = (case res of Inl p \<Rightarrow> Inl p | Inr vs \<Rightarrow> Inr (extend [h] vs r))" for r
    by (simp add: report_def res_def Let_def add_as_extend split: sum.splits)
  moreover have "case res of Inl p \<Rightarrow> True | Inr vs \<Rightarrow> length vs = length [h]"
    by (simp add: res_def split: sum.splits)
  ultimately show ?thesis by blast
qed


lemma appends_report:
  "appends [h] (\<lambda>r. case report h r counts c d of Inl p \<Rightarrow> Inl p | Inr (l, r') \<Rightarrow> Inr r')"
  using report_columns [of h counts c d] by (simp add: appends_def)

lemma appends_panic: "appends hs (\<lambda>r. Inl p)"
  unfolding appends_def by (intro exI [of _ "Inl p"]) simp

lemma appends_set: "appends [''Set op/s''] (\<lambda>r. returned (testSet r c iters d))"
proof (cases "sint c < 0")
  case True
  then show ?thesis using appends_panic by (simp add: testSet_def returned_def)
next
  case False
  then show ?thesis
    using appends_report [of "''Set op/s''"] by (simp add: testSet_def returned_def Let_def)
qed

lemma appends_del: "appends [''Del op/s''] (\<lambda>r. returned (testDelete r c iters d))"
proof (cases "sint c < 0")
  case True
  then show ?thesis using appends_panic by (simp add: testDelete_def returned_def)
next
  case False
  then show ?thesis
    using appends_report [of "''Del op/s''"] by (simp add: testDelete_def returned_def Let_def)
qed

lemma appends_get: "appends [''Get op/s''] (\<lambda>r. returned (testGet r c oks d))"
proof (cases "sint c < 0")
  case True
  then show ?thesis using appends_panic by (simp add: testGet_def returned_def)
next
  case False
  then show ?thesis
    using appends_report [of "''Get op/s''"] by (simp add: testGet_def returned_def Let_def)
qed

lemma keys_not_supported:
  "testKeys r c (Some ErrNotSupported) errs d
     = ([], Inr ((- 1, - 1), extend [''Keys op/s''] [- 1] r))"
  by (simp add: testKeys_def add_as_extend)

lemma appends_keys: "appends [''Keys op/s''] (\<lambda>r. returned (testKeys r c probe errs d))"
proof (cases "probe = Some ErrNotSupported")
  case True
  show ?thesis
    by (rule appendsI [where res = "Inr [- 1]"])
      (simp_all add: True keys_not_supported returned_def)
next
  case ns: False
  show ?thesis
  proof (cases "sint c < 0")
    case True
    then show ?thesis using ns appends_panic by (simp add: testKeys_def returned_def)
  next
    case False
    then show ?thesis
      using ns appends_report [of "''Keys op/s''"]
      by (simp add: testKeys_def returned_def Let_def)
  qed
qed

lemma appends_getset:
  "appends [''Setmixed op/s'', ''Getmixed op/s'']
     (\<lambda>r. returned (testGetSet r c setCount iters d))"
proof (cases "sint c < 0")
  case True
  then show ?thesis using appends_panic by (simp add: testGetSet_def returned_def)
next
  case False
  define counts where
    "counts = map snd (map (\<lambda>j. strideLoop c (of_nat j) 0 (iters j)) [0..<nat (sint c)])"
  define first :: "panic + int64" where
    "first = (if setCount 0 = 0 then Inr (- 1)
              else case go_div (setCount 1 * 1000000) (quo64 d 1000) of
                     Inl p \<Rightarrow> Inl p
                   | Inr rate \<Rightarrow>
                       (case go_div d (setCount 2) of
                          Inl p \<Rightarrow> Inl p
                        | Inr mean \<Rightarrow>
                            (case go_div (setCount 3 * 1000000) (quo64 d 1000) of
                               Inl p \<Rightarrow> Inl p | Inr recorded \<Rightarrow> Inr recorded)))"
  obtain res2 where res2:
    "\<And>r. (case report ''Getmixed op/s'' r counts c d of Inl p \<Rightarrow> Inl p | Inr (l, r') \<Rightarrow> Inr r')
            = (case res2 of Inl p \<Rightarrow> Inl p | Inr vs \<Rightarrow> Inr (extend [''Getmixed op/s''] vs r))"
    "case res2 of Inl p \<Rightarrow> True | Inr vs \<Rightarrow> length vs = length [''Getmixed op/s'']"
    using report_columns [of "''Getmixed op/s''" counts c d] by blast
  define res :: "panic + int64 list" where
    "res = (case first of
              Inl p \<Rightarrow> Inl p
            | Inr v \<Rightarrow> (case res2 of Inl p \<Rightarrow> Inl p | Inr vs \<Rightarrow> Inr (v # vs)))"
  show ?thesis
  proof (rule appendsI [where res = res])
    fix r
    have step: "(case report ''Getmixed op/s'' (extend [''Setmixed op/s''] [v] r) counts c d of
                   Inl p \<Rightarrow> Inl p | Inr (l, r') \<Rightarrow> Inr r')
              = (case res2 of Inl p \<Rightarrow> Inl p
                 | Inr vs \<Rightarrow> Inr (extend [''Setmixed op/s'', ''Getmixed op/s''] (v # vs) r))" for v
      by (simp add: res2(1) extend_extend split: sum.splits)
    have unfold: "returned (testGetSet r c setCount iters d)
       = (case first of
            Inl p \<Rightarrow> Inl p
          | Inr v \<Rightarrow>
              (case report ''Getmixed op/s'' (extend [''Setmixed op/s''] [v] r) counts c d of
                 Inl p \<Rightarrow> Inl p | Inr (l, r') \<Rightarrow> Inr r'))"
      using False
      by (simp add: testGetSet_def returned_def Let_def counts_def first_def add_as_extend
          del: map_map split: sum.splits)
    show "returned (testGetSet r c setCount iters d)
       = (case res of Inl p \<Rightarrow> Inl p
          | Inr vs \<Rightarrow> Inr (extend [''Setmixed op/s'', ''Getmixed op/s''] vs r))"
      unfolding unfold by (simp add: step res_def split: sum.splits)
  next
    fix vs assume "res = Inr vs"
    then show "length vs = length [''Setmixed op/s'', ''Getmixed op/s'']"
      using res2(2) by (auto simp add: res_def split: sum.splits)
  qed
qed

lemma run_phases_columns:
  assumes "list_all2 appends Hs fs"
  shows "\<exists>cols e. (\<forall>r. run_phases fs r = (map (\<lambda>cv. extend (fst cv) (snd cv) r) cols, e))
        \<and> cols \<noteq> [] \<and> hd cols = ([], [])
        \<and> list_all (\<lambda>cv. length (fst cv) = length (snd cv)) cols
        \<and> sorted_wrt (\<lambda>a b. prefix (fst a) (fst b) \<and> prefix (snd a) (snd b)) cols
        \<and> (e = None \<longrightarrow> fst (last cols) = concat Hs)"
  using assms
proof (induction Hs fs rule: list_all2_induct)
  case Nil
  show ?case
    by (intro exI [of _ "[([], [])]"] exI [of _ None]) simp
next
  case (Cons H Hs f fs)
  obtain res where res:
    "\<And>r. f r = (case res of Inl p \<Rightarrow> Inl p | Inr vs \<Rightarrow> Inr (extend H vs r))"
    "case res of Inl p \<Rightarrow> True | Inr vs \<Rightarrow> length vs = length H"
    using Cons.hyps(1) unfolding appends_def by blast
  obtain cols e where IH:
    "\<And>r. run_phases fs r = (map (\<lambda>cv. extend (fst cv) (snd cv) r) cols, e)"
    "cols \<noteq> []" "hd cols = ([], [])"
    "list_all (\<lambda>cv. length (fst cv) = length (snd cv)) cols"
    "sorted_wrt (\<lambda>a b. prefix (fst a) (fst b) \<and> prefix (snd a) (snd b)) cols"
    "e = None \<longrightarrow> fst (last cols) = concat Hs"
    using Cons.IH by blast
  show ?case
  proof (cases res)
    case (Inl p)
    have "\<And>r. run_phases (f # fs) r = (map (\<lambda>cv. extend (fst cv) (snd cv) r) [([], [])], Some p)"
      by (simp add: res(1) Inl)
    then show ?thesis
      by (intro exI [of _ "[([], [])]"] exI [of _ "Some p"]) simp
  next
    case (Inr vs)
    define cols' where "cols' = ([], []) # map (\<lambda>cv. (H @ fst cv, vs @ snd cv)) cols"
    have len: "length vs = length H" using res(2) Inr by simp
    have run: "\<And>r. run_phases (f # fs) r = (map (\<lambda>cv. extend (fst cv) (snd cv) r) cols', e)"
      by (simp add: res(1) Inr IH(1) cols'_def extend_extend comp_def)
    have al: "list_all (\<lambda>cv. length (fst cv) = length (snd cv)) cols'"
      using IH(4) len by (simp add: cols'_def list_all_iff)
    have so: "sorted_wrt (\<lambda>a b. prefix (fst a) (fst b) \<and> prefix (snd a) (snd b)) cols'"
      using IH(5) by (simp add: cols'_def sorted_wrt_map)
    have la: "e = None \<longrightarrow> fst (last cols') = concat (H # Hs)"
      using IH(2,6) by (simp add: cols'_def last_map)
    show ?thesis
      using run al so la by (intro exI [of _ cols'] exI [of _ e]) (simp add: cols'_def)
  qed
qed

lemma run_phases_nonempty: "fst (run_phases fs r) \<noteq> []"
  by (cases fs) (simp_all add: split_beta split: sum.splits)

lemma run_phases_append_complete:
  assumes "snd (run_phases (fs @ gs) r) = None"
  shows "snd (run_phases fs r) = None
     \<and> snd (run_phases gs (last (fst (run_phases fs r)))) = None
     \<and> last (fst (run_phases (fs @ gs) r))
         = last (fst (run_phases gs (last (fst (run_phases fs r)))))"
  using assms
proof (induction fs arbitrary: r)
  case Nil
  then show ?case by simp
next
  case (Cons f fs)
  show ?case
  proof (cases "f r")
    case (Inl p)
    then show ?thesis using Cons.prems by simp
  next
    case (Inr r')
    then have "snd (run_phases (fs @ gs) r') = None"
      using Cons.prems by (simp add: split_beta)
    from Cons.IH [OF this] show ?thesis
      using Inr run_phases_nonempty [of fs r'] run_phases_nonempty [of "fs @ gs" r']
      by (simp add: split_beta)
  qed
qed

lemma complete_columns:
  assumes ap: "list_all2 appends Hs fs"
  shows "\<exists>vs. length vs = length (concat Hs)
           \<and> (\<forall>r. snd (run_phases fs r) = None \<longrightarrow>
                  last (fst (run_phases fs r)) = extend (concat Hs) vs r)"
proof -
  obtain cols e where c:
    "\<And>r. run_phases fs r = (map (\<lambda>cv. extend (fst cv) (snd cv) r) cols, e)"
    "cols \<noteq> []"
    "list_all (\<lambda>cv. length (fst cv) = length (snd cv)) cols"
    "e = None \<longrightarrow> fst (last cols) = concat Hs"
    using run_phases_columns [OF ap] by blast
  show ?thesis
  proof (cases e)
    case None
    have "last cols \<in> set cols" using c(2) by simp
    then have "length (fst (last cols)) = length (snd (last cols))"
      using c(3) by (simp add: list_all_iff)
    then have "length (snd (last cols)) = length (concat Hs)"
      using c(4) None by simp
    moreover have "\<forall>r. snd (run_phases fs r) = None \<longrightarrow>
        last (fst (run_phases fs r)) = extend (concat Hs) (snd (last cols)) r"
      using c(1,2,4) None by (simp add: last_map)
    ultimately show ?thesis by blast
  next
    case (Some p)
    then have never: "\<forall>r. snd (run_phases fs r) \<noteq> None" using c(1) by simp
    obtain vs :: "int64 list" where "length vs = length (concat Hs)"
      using Ex_list_of_length by blast
    then show ?thesis using never by blast
  qed
qed

lemma appends_keys_phase: "appends [''Keys op/s''] (keys_phase w)"
  using appends_keys [of "arg_c w" "keys_probe w" "keys_errs w" "keys_dur w"]
  by (simp add: appends_def keys_phase_def)

lemma appends_later:
  "list_all2 appends
     [[''Set op/s''], [''Get op/s''], [''Setmixed op/s'', ''Getmixed op/s''], [''Del op/s'']]
     (later_phases w)"
  by (simp add: later_phases_def appends_set appends_get appends_getset appends_del)

lemma appends_load:
  "list_all2 appends
     [[''batch write cost(s)''], [''MemUsage(MiB)'', ''HeapInuse(MiB)''],
      if path_stat w = StatNotExist then [] else [''DiskUsage(MiB)'']]
     (load_phases w)"
  by (simp add: load_phases_def appends_bulk appends_mem appends_disk)

lemma appends_all:
  "list_all2 appends
     ([[''batch write cost(s)''], [''MemUsage(MiB)'', ''HeapInuse(MiB)''],
       if path_stat w = StatNotExist then [] else [''DiskUsage(MiB)'']]
      @ [''Keys op/s''] #
      [[''Set op/s''], [''Get op/s''], [''Setmixed op/s'', ''Getmixed op/s''], [''Del op/s'']])
     (load_phases w @ keys_phase w # later_phases w)"
  using appends_load [of w] appends_keys_phase [of w] appends_later [of w]
  by (intro list_all2_appendI) simp_all

lemma main_opened:
  "main w = (rs, e, l) \<Longrightarrow> rs \<noteq> [] \<Longrightarrow>
     run_phases (load_phases w @ keys_phase w # later_phases w)
       (newRecord (run_name (arg_s w) (arg_fsync w))) = (rs, e)"
  by (auto simp add: main_def Let_def split_beta split: sum.splits)

text \<open>
  C4 (amended). At every point of a run, that is when the record has been created and
  after each phase function has returned, the record has one header more than it has
  values: the header \<^verbatim>\<open>"name"\<close> has no entry in \<^verbatim>\<open>Values\<close>, its value is the field
  \<^verbatim>\<open>Name\<close>, which \<^verbatim>\<open>saveReorder\<close> writes in front of the values. Each phase only appends:
  the name, the headers and the values of an earlier point are kept, as a prefix, at
  every later point.
\<close>

theorem record_columns_aligned:
  "list_all (\<lambda>r. length (Headers r) = Suc (length (Values r))) (fst (main w))
   \<and> sorted_wrt (\<lambda>r r'. Name r' = Name r \<and> prefix (Headers r) (Headers r')
                    \<and> prefix (Values r) (Values r')) (fst (main w))"
proof (cases "fst (main w) = []")
  case True
  then show ?thesis by simp
next
  case False
  define r0 where "r0 = newRecord (run_name (arg_s w) (arg_fsync w))"
  have run: "fst (main w) = fst (run_phases (load_phases w @ keys_phase w # later_phases w) r0)"
    using False main_opened [of w "fst (main w)" "fst (snd (main w))" "snd (snd (main w))"]
    by (simp add: r0_def)
  obtain cols e where c:
    "\<And>r. run_phases (load_phases w @ keys_phase w # later_phases w) r
           = (map (\<lambda>cv. extend (fst cv) (snd cv) r) cols, e)"
    "list_all (\<lambda>cv. length (fst cv) = length (snd cv)) cols"
    "sorted_wrt (\<lambda>a b. prefix (fst a) (fst b) \<and> prefix (snd a) (snd b)) cols"
    using run_phases_columns [OF appends_all [of w]] by blast
  have r0: "Headers r0 = [''name'']" "Values r0 = []"
    by (simp_all add: r0_def newRecord_def)
  have "list_all (\<lambda>r. length (Headers r) = Suc (length (Values r)))
          (map (\<lambda>cv. extend (fst cv) (snd cv) r0) cols)"
    using c(2) by (simp add: list_all_iff r0)
  moreover have "sorted_wrt (\<lambda>r r'. Name r' = Name r \<and> prefix (Headers r) (Headers r')
                    \<and> prefix (Values r) (Values r'))
          (map (\<lambda>cv. extend (fst cv) (snd cv) r0) cols)"
    using c(3) by (simp add: sorted_wrt_map)
  ultimately show ?thesis by (simp add: run c(1))
qed

lemma main_cases:
  "main w = ([], Some OpenFailed, ledger_file w)
   \<or> run_phases (load_phases w @ keys_phase w # later_phases w)
         (newRecord (run_name (arg_s w) (arg_fsync w))) = (fst (main w), fst (snd (main w)))"
proof -
  let ?g = "getStore
     (if suffix ''/memory'' (arg_s w)
      then take (length (arg_s w) - length ''/memory'') (arg_s w) else arg_s w)
     (open_failed w) (if suffix ''/memory'' (arg_s w) then '':memory:'' else [])"
  show ?thesis
  proof (cases ?g)
    case (Inl err)
    then have "main w = ([], Some OpenFailed, ledger_file w)"
      unfolding main_def Let_def by (simp only: sum.case)
    then show ?thesis by simp
  next
    case (Inr path')
    then have "main w =
       (case run_phases (load_phases w @ keys_phase w # later_phases w)
               (newRecord (run_name (arg_s w) (arg_fsync w))) of
          (rs, e) \<Rightarrow> (rs, e, case e of Some p \<Rightarrow> ledger_file w
                                 | None \<Rightarrow> saveReorder (arg_save w) (last rs) (ledger_file w)))"
      unfolding main_def Let_def by (simp only: sum.case)
    then show ?thesis by (simp add: split_beta)
  qed
qed

lemma main_complete:
  assumes "fst (snd (main w)) = None"
  shows "run_phases (load_phases w @ keys_phase w # later_phases w)
           (newRecord (run_name (arg_s w) (arg_fsync w))) = (fst (main w), None)"
  using assms main_cases [of w] by auto

lemma complete_load:
  "\<exists>vs. length vs = (if path_stat w = StatNotExist then 3 else 4)
     \<and> (\<forall>r. snd (run_phases (load_phases w) r) = None \<longrightarrow>
           last (fst (run_phases (load_phases w) r))
             = extend ([''batch write cost(s)'', ''MemUsage(MiB)'', ''HeapInuse(MiB)'']
                        @ (if path_stat w = StatNotExist then [] else [''DiskUsage(MiB)'']))
                 vs r)"
proof -
  obtain vs where vs:
    "length vs = length (concat [[''batch write cost(s)''], [''MemUsage(MiB)'', ''HeapInuse(MiB)''],
        if path_stat w = StatNotExist then [] else [''DiskUsage(MiB)'']])"
    "\<forall>r. snd (run_phases (load_phases w) r) = None \<longrightarrow>
       last (fst (run_phases (load_phases w) r))
         = extend (concat [[''batch write cost(s)''], [''MemUsage(MiB)'', ''HeapInuse(MiB)''],
        if path_stat w = StatNotExist then [] else [''DiskUsage(MiB)'']]) vs r"
    using complete_columns [OF appends_load [of w]] by blast
  show ?thesis
    using vs by (intro exI [of _ vs]) simp
qed

lemma complete_later:
  "\<exists>vs. length vs = 5
     \<and> (\<forall>r. snd (run_phases (later_phases w) r) = None \<longrightarrow>
           last (fst (run_phases (later_phases w) r))
             = extend [''Set op/s'', ''Get op/s'', ''Setmixed op/s'', ''Getmixed op/s'',
                       ''Del op/s''] vs r)"
proof -
  obtain vs where vs:
    "length vs = length (concat [[''Set op/s''], [''Get op/s''],
        [''Setmixed op/s'', ''Getmixed op/s''], [''Del op/s'']])"
    "\<forall>r. snd (run_phases (later_phases w) r) = None \<longrightarrow>
       last (fst (run_phases (later_phases w) r))
         = extend (concat [[''Set op/s''], [''Get op/s''],
        [''Setmixed op/s'', ''Getmixed op/s''], [''Del op/s'']]) vs r"
    using complete_columns [OF appends_later [of w]] by blast
  show ?thesis
    using vs by (intro exI [of _ vs]) simp
qed

text \<open>
  C5. When the first \<^verbatim>\<open>store.Keys\<close> call of \<^verbatim>\<open>testKeys\<close> answers \<^verbatim>\<open>ErrNotSupported\<close>, the
  phase starts no worker, prints \<open>-1\<close> and appends the one column \<^verbatim>\<open>"Keys op/s"\<close> with
  the value \<open>-1\<close>; the four phases after it run on the record so extended, and a run
  that no phase ends by a panic has all its columns, with \<open>-1\<close> under
  \<^verbatim>\<open>"Keys op/s"\<close>.
\<close>

theorem keys_not_supported_sentinel:
  assumes ns: "keys_probe w = Some ErrNotSupported"
  shows "testKeys r (arg_c w) (keys_probe w) (keys_errs w) (keys_dur w)
           = ([], Inr ((- 1, - 1),
                r\<lparr>Headers := Headers r @ [''Keys op/s''], Values := Values r @ [- 1]\<rparr>))
     \<and> run_phases (keys_phase w # later_phases w) r
           = (r # fst (run_phases (later_phases w)
                    (r\<lparr>Headers := Headers r @ [''Keys op/s''], Values := Values r @ [- 1]\<rparr>)),
              snd (run_phases (later_phases w)
                    (r\<lparr>Headers := Headers r @ [''Keys op/s''], Values := Values r @ [- 1]\<rparr>)))
     \<and> (fst (snd (main w)) = None \<longrightarrow>
           Headers (last (fst (main w)))
             = [''name'', ''batch write cost(s)'', ''MemUsage(MiB)'', ''HeapInuse(MiB)'']
               @ (if path_stat w = StatNotExist then [] else [''DiskUsage(MiB)''])
               @ [''Keys op/s'', ''Set op/s'', ''Get op/s'', ''Setmixed op/s'',
                  ''Getmixed op/s'', ''Del op/s'']
         \<and> length (Values (last (fst (main w))))
             = (if path_stat w = StatNotExist then 9 else 10)
         \<and> Values (last (fst (main w))) ! (if path_stat w = StatNotExist then 3 else 4) = - 1)"
proof (intro conjI impI)
  show k: "testKeys r (arg_c w) (keys_probe w) (keys_errs w) (keys_dur w)
           = ([], Inr ((- 1, - 1),
                r\<lparr>Headers := Headers r @ [''Keys op/s''], Values := Values r @ [- 1]\<rparr>))" for r
    by (simp add: ns keys_not_supported extend_def)
  then have kp: "keys_phase w r
       = Inr (r\<lparr>Headers := Headers r @ [''Keys op/s''], Values := Values r @ [- 1]\<rparr>)" for r
    by (simp add: keys_phase_def returned_def)
  show kr: "run_phases (keys_phase w # later_phases w) r
           = (r # fst (run_phases (later_phases w)
                    (r\<lparr>Headers := Headers r @ [''Keys op/s''], Values := Values r @ [- 1]\<rparr>)),
              snd (run_phases (later_phases w)
                    (r\<lparr>Headers := Headers r @ [''Keys op/s''], Values := Values r @ [- 1]\<rparr>)))" for r
    by (simp add: kp split_beta)
  assume complete: "fst (snd (main w)) = None"
  define r0 where "r0 = newRecord (run_name (arg_s w) (arg_fsync w))"
  define r3 where "r3 = last (fst (run_phases (load_phases w) r0))"
  define r4 where "r4 = r3\<lparr>Headers := Headers r3 @ [''Keys op/s''], Values := Values r3 @ [- 1]\<rparr>"
  have run: "run_phases (load_phases w @ keys_phase w # later_phases w) r0 = (fst (main w), None)"
    using main_complete [OF complete] by (simp add: r0_def)
  then have "snd (run_phases (load_phases w @ keys_phase w # later_phases w) r0) = None"
    by simp
  from run_phases_append_complete [OF this]
  have l: "snd (run_phases (load_phases w) r0) = None"
    and rest: "snd (run_phases (keys_phase w # later_phases w) r3) = None"
    and fin: "last (fst (main w)) = last (fst (run_phases (keys_phase w # later_phases w) r3))"
    using run by (simp_all add: r3_def)
  have later: "snd (run_phases (later_phases w) r4) = None"
    using rest unfolding kr r4_def by simp
  have fin': "last (fst (main w)) = last (fst (run_phases (later_phases w) r4))"
    using fin run_phases_nonempty [of "later_phases w" r4] unfolding kr r4_def by simp
  obtain vsA where vsA: "length vsA = (if path_stat w = StatNotExist then 3 else 4)"
    "r3 = extend ([''batch write cost(s)'', ''MemUsage(MiB)'', ''HeapInuse(MiB)'']
                        @ (if path_stat w = StatNotExist then [] else [''DiskUsage(MiB)'']))
                 vsA r0"
    using complete_load [of w] l by (auto simp add: r3_def)
  obtain vsL where vsL: "length vsL = 5"
    "last (fst (main w)) = extend [''Set op/s'', ''Get op/s'', ''Setmixed op/s'',
        ''Getmixed op/s'', ''Del op/s''] vsL r4"
    using complete_later [of w] later fin' by auto
  have r0: "Headers r0 = [''name'']" "Values r0 = []"
    by (simp_all add: r0_def newRecord_def)
  show "Headers (last (fst (main w)))
             = [''name'', ''batch write cost(s)'', ''MemUsage(MiB)'', ''HeapInuse(MiB)'']
               @ (if path_stat w = StatNotExist then [] else [''DiskUsage(MiB)''])
               @ [''Keys op/s'', ''Set op/s'', ''Get op/s'', ''Setmixed op/s'',
                  ''Getmixed op/s'', ''Del op/s'']"
    by (simp add: vsL(2) r4_def vsA(2) r0)
  show "length (Values (last (fst (main w))))
             = (if path_stat w = StatNotExist then 9 else 10)"
    using vsA(1) vsL(1) by (simp add: vsL(2) r4_def vsA(2) r0)
  have "Values (last (fst (main w))) = vsA @ [- 1] @ vsL"
    by (simp add: vsL(2) r4_def vsA(2) r0)
  then show "Values (last (fst (main w))) ! (if path_stat w = StatNotExist then 3 else 4) = - 1"
    using vsA(1) by (simp add: nth_append)
qed


lemma appends_first_two:
  "list_all2 appends [[''batch write cost(s)''], [''MemUsage(MiB)'', ''HeapInuse(MiB)'']]
     [\<lambda>r. snd (testBatchWriteFixCount r (pset_err w) (arg_size w) (rand_source w)
                 (bulk_cost w) (arg_set w)),
      \<lambda>r. Inr (showMemUsage r (mem_alloc w) (mem_heapInuse w))]"
  by (simp add: appends_bulk appends_mem)

lemma appends_rest:
  "list_all2 appends
     [[''Keys op/s''], [''Set op/s''], [''Get op/s''], [''Setmixed op/s'', ''Getmixed op/s''],
      [''Del op/s'']]
     (keys_phase w # later_phases w)"
  using appends_keys_phase [of w] appends_later [of w] by simp

text \<open>
  C9. When \<^verbatim>\<open>os.Stat\<close> reports that the path does not exist, \<^verbatim>\<open>showDiskUsage\<close> returns
  the record unchanged. Such a run ends with ten headers and nine values, where the run
  that differs only in that the path exists ends with eleven and ten; its values and
  its ledger row are those of the other run with the disk usage taken out, every later
  column one position to the left.
\<close>

theorem disk_usage_column_missing:
  "showDiskUsage r StatNotExist walk = Inr r
   \<and> (path_stat w = StatNotExist
        \<and> w' = w\<lparr>path_stat := StatInfo isDir sz, path_walk := walk'\<rparr>
        \<and> fst (snd (main w)) = None \<and> fst (snd (main w')) = None
      \<longrightarrow> Headers (last (fst (main w)))
            = [''name'', ''batch write cost(s)'', ''MemUsage(MiB)'', ''HeapInuse(MiB)'',
               ''Keys op/s'', ''Set op/s'', ''Get op/s'', ''Setmixed op/s'',
               ''Getmixed op/s'', ''Del op/s'']
        \<and> Headers (last (fst (main w')))
            = [''name'', ''batch write cost(s)'', ''MemUsage(MiB)'', ''HeapInuse(MiB)'',
               ''DiskUsage(MiB)'', ''Keys op/s'', ''Set op/s'', ''Get op/s'', ''Setmixed op/s'',
               ''Getmixed op/s'', ''Del op/s'']
        \<and> length (Values (last (fst (main w')))) = 10
        \<and> Values (last (fst (main w)))
            = take 3 (Values (last (fst (main w')))) @ drop 4 (Values (last (fst (main w'))))
        \<and> ledger_row (last (fst (main w)))
            = take 4 (ledger_row (last (fst (main w'))))
              @ drop 5 (ledger_row (last (fst (main w')))))"
proof (intro conjI impI)
  show "showDiskUsage r StatNotExist walk = Inr r" by (simp add: showDiskUsage_def)
next
  assume a: "path_stat w = StatNotExist
        \<and> w' = w\<lparr>path_stat := StatInfo isDir sz, path_walk := walk'\<rparr>
        \<and> fst (snd (main w)) = None \<and> fst (snd (main w')) = None"
  define r0 where "r0 = newRecord (run_name (arg_s w) (arg_fsync w))"
  define A where "A = [\<lambda>r. snd (testBatchWriteFixCount r (pset_err w) (arg_size w)
                              (rand_source w) (bulk_cost w) (arg_set w)),
                       \<lambda>r. Inr (showMemUsage r (mem_alloc w) (mem_heapInuse w))]"
  define R where "R = keys_phase w # later_phases w"
  define D where "D = (\<lambda>r. showDiskUsage r StatNotExist (path_walk w))"
  define D' where "D' = (\<lambda>r. showDiskUsage r (StatInfo isDir sz) walk')"
  have w': "w' = w\<lparr>path_stat := StatInfo isDir sz, path_walk := walk'\<rparr>"
    and ne: "path_stat w = StatNotExist" using a by simp_all
  have all: "load_phases w @ keys_phase w # later_phases w = A @ [D] @ R"
    by (simp add: load_phases_def A_def D_def R_def ne)
  have "keys_phase w' = keys_phase w" by (rule ext) (simp add: keys_phase_def w')
  moreover have "later_phases w' = later_phases w" by (simp add: later_phases_def w')
  ultimately have all': "load_phases w' @ keys_phase w' # later_phases w' = A @ [D'] @ R"
    by (simp add: load_phases_def A_def D'_def R_def w')
  have r0': "newRecord (run_name (arg_s w') (arg_fsync w')) = r0" by (simp add: r0_def w')
  have c: "fst (snd (main w)) = None" and c': "fst (snd (main w')) = None"
    using a by blast+
  have full: "run_phases (load_phases w @ keys_phase w # later_phases w) r0
                = (fst (main w), None)"
    unfolding r0_def by (rule main_complete [OF c])
  have full': "run_phases (load_phases w' @ keys_phase w' # later_phases w')
                 (newRecord (run_name (arg_s w') (arg_fsync w'))) = (fst (main w'), None)"
    by (rule main_complete [OF c'])
  have run: "snd (run_phases (A @ [D] @ R) r0) = None"
    "last (fst (main w)) = last (fst (run_phases (A @ [D] @ R) r0))"
    using full unfolding all by simp_all
  have run': "snd (run_phases (A @ [D'] @ R) r0) = None"
    "last (fst (main w')) = last (fst (run_phases (A @ [D'] @ R) r0))"
    using full' unfolding all' r0' by simp_all
  define rA where "rA = last (fst (run_phases A r0))"
  have cA: "snd (run_phases A r0) = None"
    using run_phases_append_complete [OF run(1)] by simp
  obtain vsA where vsA0:
    "length vsA = length (concat [[''batch write cost(s)''],
        [''MemUsage(MiB)'', ''HeapInuse(MiB)'']])"
    "\<forall>r. snd (run_phases A r) = None \<longrightarrow> last (fst (run_phases A r))
        = extend (concat [[''batch write cost(s)''],
            [''MemUsage(MiB)'', ''HeapInuse(MiB)'']]) vsA r"
    using complete_columns [OF appends_first_two [of w]] unfolding A_def [symmetric] by blast
  have vsA: "length vsA = 3"
    "rA = extend [''batch write cost(s)'', ''MemUsage(MiB)'', ''HeapInuse(MiB)''] vsA r0"
    using vsA0 cA by (simp_all add: rA_def)
  obtain vsR where vsR0:
    "length vsR = length (concat [[''Keys op/s''], [''Set op/s''], [''Get op/s''],
        [''Setmixed op/s'', ''Getmixed op/s''], [''Del op/s'']])"
    "\<forall>r. snd (run_phases R r) = None \<longrightarrow> last (fst (run_phases R r))
        = extend (concat [[''Keys op/s''], [''Set op/s''], [''Get op/s''],
            [''Setmixed op/s'', ''Getmixed op/s''], [''Del op/s'']]) vsR r"
    using complete_columns [OF appends_rest [of w]] unfolding R_def [symmetric] by blast
  have vsR: "length vsR = 6"
    "\<forall>r. snd (run_phases R r) = None \<longrightarrow> last (fst (run_phases R r))
        = extend [''Keys op/s'', ''Set op/s'', ''Get op/s'', ''Setmixed op/s'',
                  ''Getmixed op/s'', ''Del op/s''] vsR r"
    using vsR0 by simp_all
  have DR: "snd (run_phases ([D] @ R) rA) = None"
    "last (fst (main w)) = last (fst (run_phases ([D] @ R) rA))"
    using run_phases_append_complete [OF run(1)] run(2) by (simp_all add: rA_def)
  have "D rA = Inr rA" by (simp add: D_def showDiskUsage_def)
  then have fin: "snd (run_phases R rA) = None"
    "last (fst (main w)) = last (fst (run_phases R rA))"
    using DR run_phases_nonempty [of R rA] by (simp_all add: split_beta)
  have DR': "snd (run_phases ([D'] @ R) rA) = None"
    "last (fst (main w')) = last (fst (run_phases ([D'] @ R) rA))"
    using run_phases_append_complete [OF run'(1)] run'(2) by (simp_all add: rA_def)
  obtain r3 where r3: "D' rA = Inr r3"
    using DR'(1) by (cases "D' rA") simp_all
  obtain x where x: "r3 = extend [''DiskUsage(MiB)''] [x] rA"
    using r3 by (auto simp add: D'_def showDiskUsage_def add_as_extend split: sum.splits)
  have fin': "snd (run_phases R r3) = None"
    "last (fst (main w')) = last (fst (run_phases R r3))"
    using DR' r3 run_phases_nonempty [of R r3] by (simp_all add: split_beta)
  have f: "last (fst (main w)) = extend [''Keys op/s'', ''Set op/s'', ''Get op/s'',
      ''Setmixed op/s'', ''Getmixed op/s'', ''Del op/s''] vsR rA"
    using vsR(2) fin by simp
  have f': "last (fst (main w')) = extend [''Keys op/s'', ''Set op/s'', ''Get op/s'',
      ''Setmixed op/s'', ''Getmixed op/s'', ''Del op/s''] vsR r3"
    using vsR(2) fin' by simp
  have r0: "Headers r0 = [''name'']" "Values r0 = []"
    by (simp_all add: r0_def newRecord_def)
  show "Headers (last (fst (main w)))
            = [''name'', ''batch write cost(s)'', ''MemUsage(MiB)'', ''HeapInuse(MiB)'',
               ''Keys op/s'', ''Set op/s'', ''Get op/s'', ''Setmixed op/s'',
               ''Getmixed op/s'', ''Del op/s'']"
    by (simp add: f vsA(2) r0)
  show "Headers (last (fst (main w')))
            = [''name'', ''batch write cost(s)'', ''MemUsage(MiB)'', ''HeapInuse(MiB)'',
               ''DiskUsage(MiB)'', ''Keys op/s'', ''Set op/s'', ''Get op/s'', ''Setmixed op/s'',
               ''Getmixed op/s'', ''Del op/s'']"
    by (simp add: f' x vsA(2) r0)
  have v: "Values (last (fst (main w))) = vsA @ vsR"
    by (simp add: f vsA(2) r0)
  have v': "Values (last (fst (main w'))) = vsA @ [x] @ vsR"
    by (simp add: f' x vsA(2) r0)
  show "length (Values (last (fst (main w')))) = 10"
    using vsA(1) vsR(1) by (simp add: v')
  show "Values (last (fst (main w)))
            = take 3 (Values (last (fst (main w')))) @ drop 4 (Values (last (fst (main w'))))"
    using vsA(1) by (simp add: v v')
  have "Name (last (fst (main w))) = Name (last (fst (main w')))"
    by (simp add: f f' x)
  then show "ledger_row (last (fst (main w)))
            = take 4 (ledger_row (last (fst (main w'))))
              @ drop 5 (ledger_row (last (fst (main w'))))"
    using vsA(1) by (simp add: ledger_row_def v v' take_map drop_map)
qed

section \<open>An example run\<close>

lemma upt_2': "[0..<nat (sint (2 :: int64))] = [0, Suc 0]"
  by (simp add: upt_2 nat_2)

lemma strideLoop_3: "strideLoop c i count 3 = ([i, i + c, i + c + c], count + 1 + 1 + 1)"
  by (simp add: numeral_3_eq_3 Let_def)

lemma report_example:
  "report h r [3, 3] 2 5000 = Inr ((1200000, 416), add_value 1200000 (add_header h r))"
  by (simp add: report_def sum_counts_def go_div_def quo64_def Let_def)

lemma report_example_get:
  "report h r [3, 3] 2 6000 = Inr ((1000000, 500), add_value 1000000 (add_header h r))"
  by (simp add: report_def sum_counts_def go_div_def quo64_def Let_def)

lemma phase_set_example:
  "returned (testSet r 2 (\<lambda>j. 3) 5000) = Inr (add_value 1200000 (add_header ''Set op/s'' r))"
  by (simp add: testSet_def returned_def Let_def upt_2 upt_2' strideLoop_3 report_example)

lemma phase_del_example:
  "returned (testDelete r 2 (\<lambda>j. 3) 5000) = Inr (add_value 1200000 (add_header ''Del op/s'' r))"
  by (simp add: testDelete_def returned_def Let_def upt_2 upt_2' strideLoop_3 report_example)

lemma phase_get_example:
  "returned (testGet r 2 (\<lambda>j. [False, True, True]) 6000)
     = Inr (add_value 1000000 (add_header ''Get op/s'' r))"
  by (simp add: testGet_def returned_def Let_def upt_2 upt_2' report_example_get)

lemma phase_mixed_example:
  "returned (testGetSet r 2 (\<lambda>k. 4) (\<lambda>j. 3) 5000)
     = Inr (add_value 1200000 (add_header ''Getmixed op/s''
             (add_value 800000 (add_header ''Setmixed op/s'' r))))"
  by (simp add: testGetSet_def returned_def Let_def upt_2 upt_2' strideLoop_3 report_example
      go_div_def quo64_def)

lemma phase_bulk_example:
  "snd (testBatchWriteFixCount r perr vsize g cost 0)
     = Inr (add_value cost (add_header ''batch write cost(s)'' r))"
  by (simp add: testBatchWriteFixCount_def pageCount_def rem64_def quo64_def)

lemma open_example:
  "getStore ''map'' False '':memory:'' = Inr '':memory:''"
  by (simp add: getStore_def)

lemma suffix_example: "suffix ''/memory'' ''map/memory''"
  by (simp add: suffix_to_prefix)

lemma disk_example:
  "showDiskUsage r (StatInfo False 3145728) [] = Inr (add_value 3 (add_header ''DiskUsage(MiB)'' r))"
  by (simp add: showDiskUsage_def quo64_def)

lemma keys_example:
  "returned (testKeys r c (Some ErrNotSupported) errs d)
     = Inr (add_value (- 1) (add_header ''Keys op/s'' r))"
  by (simp add: testKeys_def returned_def)

lemma main_example: "fst (snd (main example_world)) = None"
  by (simp add: main_def Let_def example_world_def suffix_example open_example
      load_phases_def keys_phase_def later_phases_def split_beta
      phase_bulk_example showDiskUsage_def keys_example phase_set_example phase_get_example
      phase_mixed_example phase_del_example)

lemma main_example_disk:
  "fst (snd (main (example_world\<lparr>path_stat := StatInfo False 3145728, path_walk := []\<rparr>))) = None"
  by (simp add: main_def Let_def example_world_def suffix_example open_example
      load_phases_def keys_phase_def later_phases_def split_beta
      phase_bulk_example disk_example keys_example phase_set_example phase_get_example
      phase_mixed_example phase_del_example)

lemma main_example_length: "length (fst (main example_world)) = 9"
  by (simp add: main_def Let_def example_world_def suffix_example open_example
      load_phases_def keys_phase_def later_phases_def split_beta
      phase_bulk_example showDiskUsage_def keys_example phase_set_example phase_get_example
      phase_mixed_example phase_del_example)

text \<open>
  The example run: the in-memory map backend, two workers, a store without prefix scans
  and no file at the store's path.
\<close>

theorem record_columns_aligned_witness:
  "length (fst (main example_world)) = 9
   \<and> list_all (\<lambda>r. length (Headers r) = Suc (length (Values r))) (fst (main example_world))
   \<and> sorted_wrt (\<lambda>r r'. Name r' = Name r \<and> prefix (Headers r) (Headers r')
                    \<and> prefix (Values r) (Values r')) (fst (main example_world))"
  using record_columns_aligned [of example_world] main_example_length by simp

text \<open>
  The record as \<^verbatim>\<open>main\<close> creates it has the header \<^verbatim>\<open>"name"\<close> and no value, and after
  \<^verbatim>\<open>showMemUsage\<close> has returned it has three headers and two values.
\<close>

theorem headers_outnumber_values:
  "Headers (newRecord ''map/nofsync'') = [''name'']
   \<and> Values (newRecord ''map/nofsync'') = []
   \<and> length (Headers (newRecord ''map/nofsync''))
       \<noteq> length (Values (newRecord ''map/nofsync''))
   \<and> length (Headers (showMemUsage (newRecord ''map/nofsync'') 0 0)) = 3
   \<and> length (Values (showMemUsage (newRecord ''map/nofsync'') 0 0)) = 2"
  by (simp add: newRecord_def showMemUsage_def)

lemma example_world_fields:
  "keys_probe example_world = Some ErrNotSupported"
  "path_stat example_world = StatNotExist"
  by (simp_all add: example_world_def)

text \<open>The example run completes, with \<open>-1\<close> in the column of the prefix scan.\<close>

theorem keys_not_supported_sentinel_witness:
  "keys_probe example_world = Some ErrNotSupported
   \<and> fst (snd (main example_world)) = None
   \<and> Headers (last (fst (main example_world)))
       = [''name'', ''batch write cost(s)'', ''MemUsage(MiB)'', ''HeapInuse(MiB)'',
          ''Keys op/s'', ''Set op/s'', ''Get op/s'', ''Setmixed op/s'', ''Getmixed op/s'',
          ''Del op/s'']
   \<and> length (Values (last (fst (main example_world)))) = 9
   \<and> Values (last (fst (main example_world))) ! 3 = - 1"
  using keys_not_supported_sentinel [where w = example_world and r = "newRecord []"]
    main_example example_world_fields
  by simp

text \<open>The example run, and the same run with a file of 3 MiB at the store's path.\<close>

theorem disk_usage_column_missing_witness:
  "path_stat example_world = StatNotExist
   \<and> fst (snd (main example_world)) = None
   \<and> fst (snd (main (example_world\<lparr>path_stat := StatInfo False 3145728, path_walk := []\<rparr>)))
       = None
   \<and> Headers (last (fst (main example_world)))
       = [''name'', ''batch write cost(s)'', ''MemUsage(MiB)'', ''HeapInuse(MiB)'',
          ''Keys op/s'', ''Set op/s'', ''Get op/s'', ''Setmixed op/s'', ''Getmixed op/s'',
          ''Del op/s'']
   \<and> Headers (last (fst (main
          (example_world\<lparr>path_stat := StatInfo False 3145728, path_walk := []\<rparr>))))
       = [''name'', ''batch write cost(s)'', ''MemUsage(MiB)'', ''HeapInuse(MiB)'',
          ''DiskUsage(MiB)'', ''Keys op/s'', ''Set op/s'', ''Get op/s'', ''Setmixed op/s'',
          ''Getmixed op/s'', ''Del op/s'']
   \<and> ledger_row (last (fst (main example_world)))
       = take 4 (ledger_row (last (fst (main
            (example_world\<lparr>path_stat := StatInfo False 3145728, path_walk := []\<rparr>)))))
         @ drop 5 (ledger_row (last (fst (main
            (example_world\<lparr>path_stat := StatInfo False 3145728, path_walk := []\<rparr>)))))"
  using disk_usage_column_missing
      [where w = example_world
        and w' = "example_world\<lparr>path_stat := StatInfo False 3145728, path_walk := []\<rparr>"
        and isDir = False and sz = 3145728 and walk' = "[]"
        and r = "newRecord []" and walk = "[]"]
    main_example main_example_disk example_world_fields
  by simp

section \<open>Backend adapters: point reads and prefix scans\<close>

lemma leveldbStore_Get_absent:
  "fault d = None \<Longrightarrow> map_of (tbl d) key = None \<Longrightarrow>
     leveldbStore_Get d key = (None, False, None)"
  by (simp add: leveldbStore_Get_def db_Get_def)

lemma pebbleStore_Get_absent:
  "fault d = None \<Longrightarrow> map_of (tbl d) key = None \<Longrightarrow>
     pebbleStore_Get d key = (None, False, Some (ErrDB ErrNotFound))"
  by (simp add: pebbleStore_Get_def db_Get_def)

lemma leveldbStore_Keys_any_pattern:
  "leveldbStore_Keys d p1 limit withvalues = leveldbStore_Keys d p2 limit withvalues"
  by (simp add: leveldbStore_Keys_def)

lemma pebbleStore_Keys_any_pattern:
  "pebbleStore_Keys d p1 limit withvals = pebbleStore_Keys d p2 limit withvals"
  by (simp add: pebbleStore_Keys_def)

text \<open>
  C7. A prefix scan should return the stored keys that have the prefix passed to the
  call. Both adapters scan for a constant of their own instead (\<^verbatim>\<open>"foo-"\<close>,
  \<^verbatim>\<open>"myprefix"\<close>): on a store that holds the key \<^verbatim>\<open>"ab"\<close>, the scan for the prefix
  \<^verbatim>\<open>"a"\<close> returns no key and no error.
\<close>

theorem Keys_scans_a_constant_prefix:
  "leveldbStore_Keys \<lparr>tbl = [(bytes_of ''ab'', bytes_of ''v'')], fault = None\<rparr>
     (bytes_of ''a'') 0 True = ([], [], None)
   \<and> pebbleStore_Keys \<lparr>tbl = [(bytes_of ''ab'', bytes_of ''v'')], fault = None\<rparr>
     (bytes_of ''a'') 0 True = ([], [], None)"
  by (simp add: leveldbStore_Keys_def iter_prefix_def pebbleStore_Keys_def iter_range_def
      bytes_of_def)

text \<open>
  C8. A point read of an absent key should answer no value, \<^verbatim>\<open>found = false\<close> and no
  error. The LevelDB adapter does; the Pebble adapter passes the engine's
  \<^verbatim>\<open>ErrNotFound\<close> on: on the empty store the read of \<^verbatim>\<open>"k"\<close> has a non-nil error.
\<close>

theorem pebbleStore_Get_absent_key_has_error:
  "pebbleStore_Get \<lparr>tbl = [], fault = None\<rparr> (bytes_of ''k'')
     = (None, False, Some (ErrDB ErrNotFound))
   \<and> leveldbStore_Get \<lparr>tbl = [], fault = None\<rparr> (bytes_of ''k'') = (None, False, None)"
  by (simp add: pebbleStore_Get_def leveldbStore_Get_def db_Get_def)

end
